theory Spec2Isabelle
  imports Main "HOL-Library.Word" "HOL-Library.Char_ord" "HOL-Library.List_Lexorder"
begin

unbundle bit_operations_syntax

section \<open>The hybrid RLE / bit-packed codec (package rle)\<close>

subsection \<open>Bytes, errors and constants\<close>

type_synonym byte = "8 word"

type_synonym int32 = "32 word"

text \<open>
  The errors the codec builds with \<open>fmt.Errorf\<close>, by kind. \<open>InvalidBitWidth\<close> is
  "cannot encode/decode ... with invalid bit-width". \<open>TruncatedHeader\<close> is
  "decoding run-length block header: unexpected EOF", \<open>HeaderOverflow\<close> is "overflow after
  decoding ... bytes of run-length block header", \<open>CountTooLarge\<close> is "decoded run-length
  block cannot have more than ... values", \<open>TruncatedBody\<close> is "decoding bit-packed block"
  or "decoding run-length block of ... values: unexpected EOF". The last two are the errors
  of \<open>DecodeBoolean\<close> itself.
\<close>

datatype codec_error =
    InvalidBitWidth
  | TruncatedHeader
  | HeaderOverflow
  | CountTooLarge
  | TruncatedBody
  | ShorterThan4Bytes
  | ShorterThanLengthPrefix

text \<open>A Go function returning \<open>(dst, err)\<close>: the buffer and the error, \<open>None\<close> for nil.\<close>

type_synonym result = "byte list \<times> codec_error option"

text \<open>
  \<open>decodeInt32\<close> slices its input without a bounds check, so its model has one more
  outcome: the runtime panic "slice bounds out of range".
\<close>

datatype outcome = Returns "byte list" "codec_error option" | Panics

definition maxSupportedValueCount :: nat where
  "maxSupportedValueCount = 16 * 1024 * 1024"

definition MaxVarintLen64 :: nat where
  "MaxVarintLen64 = 10"

text \<open>
  Modelled from the spec: \<open>bitpack.ByteCount\<close> (package internal/bitpack is not among the
  sources), the number of bytes that hold a number of bits, \<open>ceil(bits / 8)\<close>.
\<close>

definition ByteCount :: "nat \<Rightarrow> nat" where
  "ByteCount n = (n + 7) div 8"

text \<open>The conversion \<open>uint64(n)\<close> of a non-negative \<open>int\<close>, and \<open>uint32\<close>.\<close>

definition uint64 :: "nat \<Rightarrow> nat" where
  "uint64 n = n mod 2 ^ 64"

definition uint32 :: "nat \<Rightarrow> nat" where
  "uint32 n = n mod 2 ^ 32"

subsection \<open>Varints and little-endian words (encoding/binary)\<close>

text \<open>
  Modelled from the spec: the unsigned LEB128 varint of the run headers, as Go's
  \<open>binary.PutUvarint\<close> and \<open>binary.Uvarint\<close> write and read it (the standard library is
  not among the sources). An unsigned 64-bit value is a natural number below \<open>2 ^ 64\<close>.
  \<open>Uvarint\<close> returns the value and the number of bytes read; 0 bytes when the buffer ends
  inside the varint, and a negative number when the value overflows 64 bits.
\<close>

function PutUvarint :: "nat \<Rightarrow> byte list" where
  "PutUvarint x =
     (if x \<ge> 0x80 then word_of_nat (x mod 0x80 + 0x80) # PutUvarint (x div 0x80)
      else [word_of_nat x])"
  by pat_completeness auto
termination
  by (relation "measure (\<lambda>x. x)") auto

declare PutUvarint.simps [simp del]

fun Uvarint_loop :: "nat \<Rightarrow> nat \<Rightarrow> nat \<Rightarrow> byte list \<Rightarrow> nat \<times> int" where
  "Uvarint_loop i s x [] = (0, 0)"
| "Uvarint_loop i s x (b # buf) =
     (if i = MaxVarintLen64 then (0, - (int i + 1))
      else if b < 0x80 then
        (if i = MaxVarintLen64 - 1 \<and> b > 1 then (0, - (int i + 1))
         else (x + uint64 (unat b * 2 ^ s), int i + 1))
      else Uvarint_loop (i + 1) (s + 7) (x + uint64 (unat (b AND 0x7f) * 2 ^ s)) buf)"

definition Uvarint :: "byte list \<Rightarrow> nat \<times> int" where
  "Uvarint buf = Uvarint_loop 0 0 0 buf"

definition appendUvarint :: "byte list \<Rightarrow> nat \<Rightarrow> byte list" where
  "appendUvarint dst u = dst @ PutUvarint u"

text \<open>\<open>binary.LittleEndian.Uint32\<close> and \<open>PutUint32\<close> on the first four bytes of a buffer.\<close>

definition Uint32 :: "byte list \<Rightarrow> nat" where
  "Uint32 b = unat (b ! 0) + unat (b ! 1) * 2 ^ 8 + unat (b ! 2) * 2 ^ 16 + unat (b ! 3) * 2 ^ 24"

definition PutUint32 :: "byte list \<Rightarrow> nat \<Rightarrow> byte list" where
  "PutUint32 b v =
     [word_of_nat v, word_of_nat (v div 2 ^ 8), word_of_nat (v div 2 ^ 16),
      word_of_nat (v div 2 ^ 24)] @ drop 4 b"

subsection \<open>Boolean pages: encodeBits, decodeBits and the framed variant\<close>

definition isZero :: "byte list \<Rightarrow> bool" where
  "isZero data = (count_list data 0x00 = length data)"

definition isOnes :: "byte list \<Rightarrow> bool" where
  "isOnes data = (count_list data 0xFF = length data)"

text \<open>
  \<open>appendRunLengthBytes\<close> grows the buffer, writes the header and the value and cuts the
  buffer after them; \<open>appendBitPackedBits\<close> writes the header and copies the bytes.
\<close>

definition appendRunLengthBytes :: "byte list \<Rightarrow> nat \<Rightarrow> byte \<Rightarrow> byte list" where
  "appendRunLengthBytes dst count v = dst @ PutUvarint (uint64 (2 * uint64 count)) @ [v]"

definition appendRunLengthBits :: "byte list \<Rightarrow> nat \<Rightarrow> byte \<Rightarrow> byte list" where
  "appendRunLengthBits dst count v = appendRunLengthBytes dst count v"

definition appendBitPackedBits :: "byte list \<Rightarrow> byte list \<Rightarrow> byte list" where
  "appendBitPackedBits dst words =
     dst @ PutUvarint (uint64 (2 * length words) OR 1) @ words"

text \<open>
  The two inner loops of \<open>encodeBits\<close>, each advancing \<open>j\<close>. The first one,
  \<open>for j < len(src) && src[i] == src[j] { j++ }\<close>, is also the inner loop of the tails of
  \<open>encodeBytes\<close> and \<open>encodeInt32\<close>.
\<close>

function same_run :: "'a list \<Rightarrow> nat \<Rightarrow> nat \<Rightarrow> nat" where
  "same_run src i j =
     (if j < length src \<and> src ! i = src ! j then same_run src i (j + 1) else j)"
  by pat_completeness auto
termination
  by (relation "measure (\<lambda>(src, i, j). length src - j)") auto

declare same_run.simps [simp del]

function bits_mixed :: "byte list \<Rightarrow> nat \<Rightarrow> nat" where
  "bits_mixed src j =
     (if j < length src \<and>
         (src ! (j - 1) \<noteq> src ! j \<or> (src ! j \<noteq> 0 \<and> src ! j = 0xFF))
      then bits_mixed src (j + 1) else j)"
  by pat_completeness auto
termination
  by (relation "measure (\<lambda>(src, j). length src - j)") auto

declare bits_mixed.simps [simp del]

lemma same_run_ge: "j \<le> same_run src i j"
  by (induction src i j rule: same_run.induct) (subst same_run.simps, auto dest: Suc_leD)

lemma bits_mixed_ge: "j \<le> bits_mixed src j"
  by (induction src j rule: bits_mixed.induct) (subst bits_mixed.simps, auto dest: Suc_leD)

lemma same_run_le: "j \<le> length src \<Longrightarrow> same_run src i j \<le> length src"
  by (induction src i j rule: same_run.induct) (subst same_run.simps, simp)

lemma bits_mixed_le: "j \<le> length src \<Longrightarrow> bits_mixed src j \<le> length src"
  by (induction src j rule: bits_mixed.induct) (subst bits_mixed.simps, simp)

text \<open>One turn of the loop of \<open>encodeBits\<close> at index \<open>i\<close>: the buffer and the next index.\<close>

definition encodeBits_step :: "byte list \<Rightarrow> byte list \<Rightarrow> nat \<Rightarrow> byte list \<times> nat" where
  "encodeBits_step dst src i =
     (let j = i + 1;
          j = (if src ! i = 0 \<or> src ! i = 0xFF then same_run src i j else j)
      in if (src ! i = 0 \<or> src ! i = 0xFF) \<and> j - i > 1
         then (appendRunLengthBits dst (8 * (j - i)) (src ! i), j)
         else
           let j = bits_mixed src j;
               j = (if j - i > 1 \<and> j < length src then j - 1 else j)
           in (appendBitPackedBits dst (take (j - i) (drop i src)), j))"

lemma encodeBits_step_advances: "i < snd (encodeBits_step dst src i)"
proof -
  have a: "i + 1 \<le> same_run src i (i + 1)" by (rule same_run_ge)
  have b: "\<And>j. i + 1 \<le> j \<Longrightarrow> i + 1 \<le> bits_mixed src j"
    using bits_mixed_ge le_trans by blast
  show ?thesis
    using a b [of "i + 1"] b [of "same_run src i (i + 1)"]
    by (auto simp: encodeBits_step_def Let_def)
qed

function encodeBits_loop :: "byte list \<Rightarrow> byte list \<Rightarrow> nat \<Rightarrow> byte list" where
  "encodeBits_loop dst src i =
     (if i < length src
      then encodeBits_loop (fst (encodeBits_step dst src i)) src (snd (encodeBits_step dst src i))
      else dst)"
  by pat_completeness auto
termination
proof (relation "measure (\<lambda>(dst, src, i). length src - i)")
  show "wf (measure (\<lambda>(dst, src, i). length src - i))" by simp
next
  fix dst src :: "byte list" and i :: nat
  assume "i < length src"
  with encodeBits_step_advances [of i dst src]
  show "((fst (encodeBits_step dst src i), src, snd (encodeBits_step dst src i)), (dst, src, i))
          \<in> measure (\<lambda>(dst, src, i). length src - i)"
    by simp
qed

declare encodeBits_loop.simps [simp del]

definition encodeBits :: "byte list \<Rightarrow> byte list \<Rightarrow> byte list" where
  "encodeBits dst src =
     (if length src = 0 \<or> isZero src \<or> isOnes src
      then (let dst = appendUvarint dst (uint64 (2 * uint64 (8 * length src)))
            in if length src > 0 then dst @ [src ! 0] else dst)
      else encodeBits_loop dst src 0)"

text \<open>
  \<open>EncodeBoolean\<close>: four placeholder bytes, the encoded body, then the length of the body
  written over the placeholder.
\<close>

definition EncodeBoolean :: "byte list \<Rightarrow> byte list" where
  "EncodeBoolean src =
     (let dst = [0, 0, 0, 0];
          dst = encodeBits dst src
      in PutUint32 dst (uint32 (uint32 (length dst) + 2 ^ 32 - 4)))"

function decodeBits_loop :: "byte list \<Rightarrow> byte list \<Rightarrow> nat \<Rightarrow> result" where
  "decodeBits_loop dst src i =
     (if i < length src then
        (case Uvarint (drop i src) of (u, n) \<Rightarrow>
           if n = 0 then (dst, Some TruncatedHeader)
           else if n < 0 then (dst, Some HeaderOverflow)
           else
             let i = i + nat n; count = u div 2; bitpacked = (u AND 1 \<noteq> 0) in
             if count > maxSupportedValueCount then (dst, Some CountTooLarge)
             else if bitpacked then
               let j = i + count in
               if j > length src then (dst, Some TruncatedBody)
               else decodeBits_loop (dst @ take (j - i) (drop i src)) src j
             else
               let word = (if i < length src then src ! i else 0);
                   i = (if i < length src then i + 1 else i)
               in decodeBits_loop (dst @ replicate (ByteCount count) word) src i)
      else (dst, None))"
  by pat_completeness auto
termination
  by (relation "measure (\<lambda>(dst, src, i). length src - i)") (auto split: if_splits)

declare decodeBits_loop.simps [simp del]

definition decodeBits :: "byte list \<Rightarrow> byte list \<Rightarrow> result" where
  "decodeBits dst src = decodeBits_loop dst src 0"

definition DecodeBoolean :: "byte list \<Rightarrow> result" where
  "DecodeBoolean src =
     (if length src = 4 then ([], None)
      else if length src < 4 then ([], Some ShorterThan4Bytes)
      else
        let n = Uint32 src; src = drop 4 src in
        if n > length src then ([], Some ShorterThanLengthPrefix)
        else decodeBits [] (take n src))"

subsection \<open>Bit packing (package internal/bitpack and the assembly kernels)\<close>

text \<open>
  Modelled from the spec: the BitPacker of section 4.1. \<open>bitpack.PackInt32\<close>,
  \<open>bitpack.UnpackInt32\<close> and the assembly routines \<open>encodeBytesBitpack\<close>,
  \<open>decodeBytesBitpack\<close> and \<open>encodeInt32Bitpack1to16bitsAVX2\<close> are declared but not
  defined in the sources. Bit \<open>i\<close> of value \<open>j\<close> lands at the absolute bit position
  \<open>j * w + i\<close>, least significant bit first within each byte; \<open>unpack\<close> reads \<open>n\<close> values
  back from the same positions. The padding that the unpacker may load after the last
  valid byte never reaches its output, so the model reads the packed bytes only.
\<close>

definition value_bits :: "nat \<Rightarrow> 'a::len word \<Rightarrow> bool list" where
  "value_bits w v = map (bit v) [0..<w]"

definition bit_stream :: "nat \<Rightarrow> 'a::len word list \<Rightarrow> bool list" where
  "bit_stream w vs = concat (map (value_bits w) vs)"

definition bits_of_bytes :: "byte list \<Rightarrow> bool list" where
  "bits_of_bytes bs = concat (map (value_bits 8) bs)"

definition pack :: "nat \<Rightarrow> 'a::len word list \<Rightarrow> byte list" where
  "pack w vs =
     map (\<lambda>k. horner_sum of_bool 2 (take 8 (drop (8 * k) (bit_stream w vs))))
       [0..<ByteCount (length vs * w)]"

definition unpack :: "nat \<Rightarrow> nat \<Rightarrow> byte list \<Rightarrow> 'a::len word list" where
  "unpack w n bs =
     map (\<lambda>j. horner_sum of_bool 2 (take w (drop (j * w) (bits_of_bytes bs)))) [0..<n]"

text \<open>The little-endian bytes of an int32, as \<open>unsafecast\<close> sees them in memory.\<close>

definition int32_bytes :: "int32 \<Rightarrow> byte list" where
  "int32_bytes v = [ucast v, ucast (drop_bit 8 v), ucast (drop_bit 16 v), ucast (drop_bit 24 v)]"

definition Int32ToBytes :: "int32 list \<Rightarrow> byte list" where
  "Int32ToBytes vs = concat (map int32_bytes vs)"

subsection \<open>Levels: encodeBytes and decodeBytes\<close>

text \<open>
  \<open>encodeBytes\<close> reads its input eight bytes at a time through a \<open>uint64\<close> view. A word is
  modelled by the eight bytes it covers, \<open>broadcast8x1\<close> by eight copies of the low byte
  (the first byte of the group, the machine being little-endian).
\<close>

definition words_of :: "'a list \<Rightarrow> 'a list list" where
  "words_of src = map (\<lambda>k. take 8 (drop (8 * k) src)) [0..<length src div 8]"

definition broadcast8x1 :: "byte list \<Rightarrow> byte list" where
  "broadcast8x1 v = replicate 8 (v ! 0)"

definition appendBitPackedBytes :: "byte list \<Rightarrow> byte list list \<Rightarrow> nat \<Rightarrow> byte list" where
  "appendBitPackedBytes dst words bitWidth =
     dst @ PutUvarint (uint64 (2 * length words) OR 1) @ pack bitWidth (concat words)"

function words_same :: "'a list \<Rightarrow> 'a \<Rightarrow> nat \<Rightarrow> nat" where
  "words_same words pattern j =
     (if j < length words \<and> words ! j = pattern then words_same words pattern (j + 1) else j)"
  by pat_completeness auto
termination
  by (relation "measure (\<lambda>(words, pattern, j). length words - j)") auto

declare words_same.simps [simp del]

function bytes_mixed :: "byte list list \<Rightarrow> nat \<Rightarrow> nat" where
  "bytes_mixed words j =
     (if j < length words \<and> words ! j \<noteq> broadcast8x1 (words ! (j - 1))
      then bytes_mixed words (j + 1) else j)"
  by pat_completeness auto
termination
  by (relation "measure (\<lambda>(words, j). length words - j)") auto

declare bytes_mixed.simps [simp del]

lemma words_same_ge: "j \<le> words_same words pattern j"
  by (induction words pattern j rule: words_same.induct)
    (subst words_same.simps, auto dest: Suc_leD)

lemma words_same_le: "j \<le> length words \<Longrightarrow> words_same words pattern j \<le> length words"
  by (induction words pattern j rule: words_same.induct) (subst words_same.simps, simp)

lemma bytes_mixed_ge: "j \<le> bytes_mixed words j"
  by (induction words j rule: bytes_mixed.induct) (subst bytes_mixed.simps, auto dest: Suc_leD)

lemma bytes_mixed_le: "j \<le> length words \<Longrightarrow> bytes_mixed words j \<le> length words"
  by (induction words j rule: bytes_mixed.induct) (subst bytes_mixed.simps, simp)

text \<open>One turn of the loop over the words, and one turn of the loop over the tail.\<close>

definition encodeBytes_step :: "byte list \<Rightarrow> byte list list \<Rightarrow> nat \<Rightarrow> nat \<Rightarrow> byte list \<times> nat" where
  "encodeBytes_step dst words i bitWidth =
     (let pattern = broadcast8x1 (words ! i);
          j = words_same words pattern i
      in if i < j then (appendRunLengthBytes dst (8 * (j - i)) (pattern ! 0), j)
         else
           let j = bytes_mixed words (j + 1)
           in (appendBitPackedBytes dst (take (j - i) (drop i words)) bitWidth, j))"

lemma encodeBytes_step_advances: "i < snd (encodeBytes_step dst words i bitWidth)"
  using bytes_mixed_ge [of "words_same words (broadcast8x1 (words ! i)) i + 1" words]
    words_same_ge [of i words "broadcast8x1 (words ! i)"]
  by (auto simp: encodeBytes_step_def Let_def)

function encodeBytes_words :: "byte list \<Rightarrow> byte list list \<Rightarrow> nat \<Rightarrow> nat \<Rightarrow> byte list" where
  "encodeBytes_words dst words i bitWidth =
     (if i < length words
      then encodeBytes_words (fst (encodeBytes_step dst words i bitWidth)) words
             (snd (encodeBytes_step dst words i bitWidth)) bitWidth
      else dst)"
  by pat_completeness auto
termination
proof (relation "measure (\<lambda>(dst, words, i, bitWidth). length words - i)")
  show "wf (measure (\<lambda>(dst, words, i, bitWidth). length words - i))" by simp
next
  fix dst :: "byte list" and words :: "byte list list" and i bitWidth :: nat
  assume "i < length words"
  with encodeBytes_step_advances [of i dst words bitWidth]
  show "((fst (encodeBytes_step dst words i bitWidth), words,
          snd (encodeBytes_step dst words i bitWidth), bitWidth), (dst, words, i, bitWidth))
          \<in> measure (\<lambda>(dst, words, i, bitWidth). length words - i)"
    by simp
qed

declare encodeBytes_words.simps [simp del]

function encodeBytes_tail :: "byte list \<Rightarrow> byte list \<Rightarrow> nat \<Rightarrow> byte list" where
  "encodeBytes_tail dst src i =
     (if i < length src
      then (let j = same_run src i (i + 1)
            in encodeBytes_tail (appendRunLengthBytes dst (j - i) (src ! i)) src j)
      else dst)"
  by pat_completeness auto
termination
proof (relation "measure (\<lambda>(dst, src, i). length src - i)")
  show "wf (measure (\<lambda>(dst, src, i). length src - i))" by simp
next
  fix dst src :: "byte list" and i j :: nat
  assume "i < length src" and "j = same_run src i (i + 1)"
  with same_run_ge [of "i + 1" src i]
  show "((appendRunLengthBytes dst (j - i) (src ! i), src, j), (dst, src, i))
          \<in> measure (\<lambda>(dst, src, i). length src - i)"
    by simp
qed

declare encodeBytes_tail.simps [simp del]

definition encodeBytes :: "byte list \<Rightarrow> byte list \<Rightarrow> nat \<Rightarrow> result" where
  "encodeBytes dst src bitWidth =
     (if bitWidth > 8 then (dst, Some InvalidBitWidth)
      else if bitWidth = 0 then
        (if \<not> isZero src then (dst, Some InvalidBitWidth)
         else (appendUvarint dst (uint64 (2 * uint64 (length src))), None))
      else
        let dst = (if length src \<ge> 8 then encodeBytes_words dst (words_of src) 0 bitWidth
                   else dst)
        in (encodeBytes_tail dst src ((length src div 8) * 8), None))"

function decodeBytes_loop :: "byte list \<Rightarrow> byte list \<Rightarrow> nat \<Rightarrow> nat \<Rightarrow> result" where
  "decodeBytes_loop dst src i bitWidth =
     (if i < length src then
        (case Uvarint (drop i src) of (u, n) \<Rightarrow>
           if n = 0 then (dst, Some TruncatedHeader)
           else if n < 0 then (dst, Some HeaderOverflow)
           else
             let i = i + nat n; count = u div 2; bitpacked = (u AND 1 \<noteq> 0) in
             if count > maxSupportedValueCount then (dst, Some CountTooLarge)
             else if bitpacked then
               let count = count * 8;
                   j = i + ByteCount (count * bitWidth)
               in
               if j > length src then (dst, Some TruncatedBody)
               else decodeBytes_loop (dst @ unpack bitWidth count (take (j - i) (drop i src)))
                      src j bitWidth
             else if bitWidth \<noteq> 0 \<and> i + 1 > length src then (dst, Some TruncatedBody)
             else
               let word = (if bitWidth \<noteq> 0 then src ! i else 0);
                   i = (if bitWidth \<noteq> 0 then i + 1 else i)
               in decodeBytes_loop (dst @ replicate count word) src i bitWidth)
      else (dst, None))"
  by pat_completeness auto
termination
  by (relation "measure (\<lambda>(dst, src, i, bitWidth). length src - i)") (auto split: if_splits)

declare decodeBytes_loop.simps [simp del]

definition decodeBytes :: "byte list \<Rightarrow> byte list \<Rightarrow> nat \<Rightarrow> result" where
  "decodeBytes dst src bitWidth =
     (if bitWidth > 8 then (dst, Some InvalidBitWidth)
      else decodeBytes_loop dst src 0 bitWidth)"

subsection \<open>Dictionary indexes: encodeInt32 and decodeInt32\<close>

definition broadcast8x4 :: "int32 \<Rightarrow> int32 list" where
  "broadcast8x4 v = [v, v, v, v, v, v, v, v]"

text \<open>
  Modelled from the spec: \<open>encodeInt32IndexEqual8Contiguous\<close> (assembly, declared but not
  defined in the sources), the number of leading groups that are not constant groups: a
  bit-packed run is extended "while the next group is not a constant group".
\<close>

definition encodeInt32IndexEqual8Contiguous :: "int32 list list \<Rightarrow> nat" where
  "encodeInt32IndexEqual8Contiguous words =
     length (takeWhile (\<lambda>w. w \<noteq> broadcast8x4 (w ! 0)) words)"

text \<open>
  \<open>encodeInt32Bitpack\<close> is \<open>encodeInt32BitpackDefault\<close> or an assembly routine of the same
  contract: the eight values of every word packed, \<open>ByteCount (len * 8 * bitWidth)\<close> bytes.
\<close>

definition encodeInt32Bitpack :: "int32 list list \<Rightarrow> nat \<Rightarrow> byte list" where
  "encodeInt32Bitpack src bitWidth =
     take (ByteCount (length src * 8 * bitWidth)) (pack bitWidth (concat src))"

definition appendRunLengthInt32 :: "byte list \<Rightarrow> nat \<Rightarrow> int32 \<Rightarrow> nat \<Rightarrow> byte list" where
  "appendRunLengthInt32 dst count v bitWidth =
     dst @ PutUvarint (uint64 (2 * uint64 count)) @ take (ByteCount bitWidth) (int32_bytes v)"

definition appendBitPackedInt32 :: "byte list \<Rightarrow> int32 list list \<Rightarrow> nat \<Rightarrow> byte list" where
  "appendBitPackedInt32 dst words bitWidth =
     dst @ PutUvarint (uint64 (2 * uint64 (length words)) OR 1) @ encodeInt32Bitpack words bitWidth"

definition encodeInt32_step :: "byte list \<Rightarrow> int32 list list \<Rightarrow> nat \<Rightarrow> nat \<Rightarrow> byte list \<times> nat" where
  "encodeInt32_step dst words i bitWidth =
     (let pattern = broadcast8x4 (words ! i ! 0);
          j = words_same words pattern i
      in if i < j then (appendRunLengthInt32 dst (8 * (j - i)) (pattern ! 0) bitWidth, j)
         else
           let j = j + 1;
               j = j + encodeInt32IndexEqual8Contiguous (drop j words)
           in (appendBitPackedInt32 dst (take (j - i) (drop i words)) bitWidth, j))"

lemma encodeInt32_step_advances: "i < snd (encodeInt32_step dst words i bitWidth)"
  using words_same_ge [of i words "broadcast8x4 (words ! i ! 0)"]
  by (auto simp: encodeInt32_step_def Let_def)

function encodeInt32_words :: "byte list \<Rightarrow> int32 list list \<Rightarrow> nat \<Rightarrow> nat \<Rightarrow> byte list" where
  "encodeInt32_words dst words i bitWidth =
     (if i < length words
      then encodeInt32_words (fst (encodeInt32_step dst words i bitWidth)) words
             (snd (encodeInt32_step dst words i bitWidth)) bitWidth
      else dst)"
  by pat_completeness auto
termination
proof (relation "measure (\<lambda>(dst, words, i, bitWidth). length words - i)")
  show "wf (measure (\<lambda>(dst, words, i, bitWidth). length words - i))" by simp
next
  fix dst :: "byte list" and words :: "int32 list list" and i bitWidth :: nat
  assume "i < length words"
  with encodeInt32_step_advances [of i dst words bitWidth]
  show "((fst (encodeInt32_step dst words i bitWidth), words,
          snd (encodeInt32_step dst words i bitWidth), bitWidth), (dst, words, i, bitWidth))
          \<in> measure (\<lambda>(dst, words, i, bitWidth). length words - i)"
    by simp
qed

declare encodeInt32_words.simps [simp del]

function encodeInt32_tail :: "byte list \<Rightarrow> int32 list \<Rightarrow> nat \<Rightarrow> nat \<Rightarrow> byte list" where
  "encodeInt32_tail dst src i bitWidth =
     (if i < length src
      then (let j = same_run src i (i + 1)
            in encodeInt32_tail (appendRunLengthInt32 dst (j - i) (src ! i) bitWidth) src j bitWidth)
      else dst)"
  by pat_completeness auto
termination
proof (relation "measure (\<lambda>(dst, src, i, bitWidth). length src - i)")
  show "wf (measure (\<lambda>(dst, src, i, bitWidth). length src - i))" by simp
next
  fix dst :: "byte list" and src :: "int32 list" and i j bitWidth :: nat
  assume "i < length src" and "j = same_run src i (i + 1)"
  with same_run_ge [of "i + 1" src i]
  show "((appendRunLengthInt32 dst (j - i) (src ! i) bitWidth, src, j, bitWidth),
          (dst, src, i, bitWidth))
          \<in> measure (\<lambda>(dst, src, i, bitWidth). length src - i)"
    by simp
qed

declare encodeInt32_tail.simps [simp del]

definition encodeInt32 :: "byte list \<Rightarrow> int32 list \<Rightarrow> nat \<Rightarrow> result" where
  "encodeInt32 dst src bitWidth =
     (if bitWidth > 32 then (dst, Some InvalidBitWidth)
      else if bitWidth = 0 then
        (if \<not> isZero (Int32ToBytes src) then (dst, Some InvalidBitWidth)
         else (appendUvarint dst (uint64 (2 * uint64 (length src))), None))
      else
        let dst = (if length src \<ge> 8 then encodeInt32_words dst (words_of src) 0 bitWidth
                   else dst)
        in (encodeInt32_tail dst src ((length src div 8) * 8) bitWidth, None))"

text \<open>
  \<open>appendRepeat\<close> copies the pattern once and then doubles what it has written until the
  buffer is full. \<open>length = count * len(pattern)\<close>, so the loop runs only after a
  non-empty first copy.
\<close>

function appendRepeat_loop :: "byte list \<Rightarrow> nat \<Rightarrow> byte list" where
  "appendRepeat_loop filled len =
     (if length filled < len \<and> filled \<noteq> []
      then appendRepeat_loop (filled @ take (len - length filled) filled) len
      else filled)"
  by pat_completeness auto
termination
  by (relation "measure (\<lambda>(filled, len). len - length filled)")
    (auto simp: min_def length_greater_0_conv [symmetric] simp del: length_greater_0_conv)

declare appendRepeat_loop.simps [simp del]

definition appendRepeat :: "byte list \<Rightarrow> byte list \<Rightarrow> nat \<Rightarrow> byte list" where
  "appendRepeat dst pattern count =
     (let len = count * length pattern
      in dst @ appendRepeat_loop (take len pattern) len)"

text \<open>
  The input of \<open>decodeInt32\<close> is a slice: its bytes \<open>src\<close>, and the bytes \<open>spare\<close> of the
  underlying array between its length and its capacity. A bit-packed run is cut out with
  \<open>src[i : i+length]\<close>, checked against the capacity only.
\<close>

function decodeInt32_loop :: "byte list \<Rightarrow> byte list \<Rightarrow> byte list \<Rightarrow> nat \<Rightarrow> nat \<Rightarrow> outcome" where
  "decodeInt32_loop dst src spare i bitWidth =
     (if i < length src then
        (case Uvarint (drop i src) of (u, n) \<Rightarrow>
           if n = 0 then Returns dst (Some TruncatedHeader)
           else if n < 0 then Returns dst (Some HeaderOverflow)
           else
             let i = i + nat n; count = u div 2; bitpacked = (u AND 1 \<noteq> 0) in
             if count > maxSupportedValueCount then Returns dst (Some CountTooLarge)
             else if bitpacked then
               let len = count * bitWidth in
               if i + len > length src + length spare then Panics
               else
                 let inp = take len (drop i (src @ spare));
                     out = unpack bitWidth (8 * count) inp
                 in decodeInt32_loop (dst @ Int32ToBytes out) src spare (i + len) bitWidth
             else
               let j = i + ByteCount bitWidth in
               if j > length src then Returns dst (Some TruncatedBody)
               else
                 let bits = take 4 (take (j - i) (drop i src) @ [0, 0, 0, 0])
                 in decodeInt32_loop (appendRepeat dst bits count) src spare j bitWidth)
      else Returns dst None)"
  by pat_completeness auto
termination
  by (relation "measure (\<lambda>(dst, src, spare, i, bitWidth). length src - i)")
    (auto split: if_splits)

declare decodeInt32_loop.simps [simp del]

definition decodeInt32 :: "byte list \<Rightarrow> byte list \<Rightarrow> byte list \<Rightarrow> nat \<Rightarrow> outcome" where
  "decodeInt32 dst src spare bitWidth =
     (if bitWidth > 32 then Returns dst (Some InvalidBitWidth)
      else decodeInt32_loop dst src spare 0 bitWidth)"

section \<open>Trace lookup in a block (package vparquet)\<close>

subsection \<open>The columnar file as the finder sees it\<close>

text \<open>
  The parquet file, the page readers and the bloom filters are collaborators of the finder;
  the model holds what their calls return. Trace ids are the strings that the finder
  compares with \<open>strings.Compare\<close>, that is, bytewise in lexicographic order: \<open><\<close> on
  \<^typ>\<open>string\<close>. An error of a reader is \<open>EOF\<close> (\<open>io.EOF\<close>) or \<open>ReadFailed\<close> (any other
  error); \<open>None\<close> stands for nil.
\<close>

datatype read_error = EOF | ReadFailed

text \<open>
  A page: the result of \<open>pg.Bounds()\<close> (\<open>None\<close> when \<open>ok\<close> is false), of \<open>pg.NumRows()\<close>, and
  the results of the successive calls \<open>vr.ReadValues(vs)\<close> on \<open>pg.Values()\<close>, each with the
  values it delivered and its error. Once the list is used up the reader answers
  \<open>(0, io.EOF)\<close>.
\<close>

record page =
  bounds :: "(string \<times> string) option"
  num_rows :: nat
  reads :: "(string list \<times> read_error option) list"

text \<open>
  The trace-id column chunk of a row group: the bloom filter (\<open>None\<close> when
  \<open>BloomFilter()\<close> is nil; otherwise the \<open>exists\<close> answer of \<open>bf.Check\<close>, whose error the
  source drops), \<open>ColumnIndex().MinValue(0)\<close> and \<open>ColumnIndex().MaxValue(numPages - 1)\<close>,
  the results \<open>(pg, err)\<close> of the successive calls \<open>pages.ReadPage()\<close> (after them the
  reader answers \<open>(nil, io.EOF)\<close>), and \<open>NumRows()\<close> of the row group.
\<close>

record row_group =
  bloom :: "(string \<Rightarrow> bool) option"
  index_min :: string
  index_max :: string
  pages :: "(page option \<times> read_error option) list"
  rg_num_rows :: nat

record RowTracker =
  rgs :: "row_group list"
  startRowNum :: "int list"

definition SearchPrevious :: int where
  "SearchPrevious = - 1"

definition SearchNext :: int where
  "SearchNext = - 2"

definition NotFound :: int where
  "NotFound = - 3"

subsection \<open>findTraceByID: the probe of one row group\<close>

text \<open>The loop \<open>for y := 0; y < x; y++\<close> over the values of one \<open>ReadValues\<close>.\<close>

fun match_from :: "string list \<Rightarrow> string \<Rightarrow> nat \<Rightarrow> nat option" where
  "match_from [] traceID y = None"
| "match_from (v # vs) traceID y =
     (if v = traceID then Some y else match_from vs traceID (y + 1))"

text \<open>
  The inner \<open>for\<close> loop over the reads of one page. Leaving it with \<open>break\<close> leads to the
  \<open>break\<close> of the loop over the pages and to \<open>return NotFound\<close>.
\<close>

fun scanValues :: "int \<Rightarrow> (string list \<times> read_error option) list \<Rightarrow> string \<Rightarrow> int" where
  "scanValues rowMatch [] traceID = NotFound"
| "scanValues rowMatch ((vs, err) # rest) traceID =
     (case match_from vs traceID 0 of
        Some y \<Rightarrow> rowMatch + int y
      | None \<Rightarrow>
          if err = Some EOF then NotFound
          else if err \<noteq> None then NotFound
          else scanValues (rowMatch + int (length vs)) rest traceID)"

text \<open>
  The loop over the pages. It returns the result of the probe and what is left of the page
  iterator, which \<open>ReadPage\<close> advances.
\<close>

fun scanPages ::
  "int \<Rightarrow> (page option \<times> read_error option) list \<Rightarrow> string
     \<Rightarrow> int \<times> (page option \<times> read_error option) list" where
  "scanPages rowMatch [] traceID = (NotFound, [])"
| "scanPages rowMatch ((pg, err) # rest) traceID =
     (case pg of
        None \<Rightarrow> (NotFound, rest)
      | Some p \<Rightarrow>
          if err = Some EOF then (NotFound, rest)
          else
            (case bounds p of
               Some (pmin, pmax) \<Rightarrow>
                 if traceID < pmin then (SearchPrevious, rest)
                 else if pmax < traceID then scanPages (rowMatch + int (num_rows p)) rest traceID
                 else (scanValues rowMatch (reads p) traceID, rest)
             | None \<Rightarrow> (scanValues rowMatch (reads p) traceID, rest)))"

definition findTraceByID :: "RowTracker \<Rightarrow> nat \<Rightarrow> string \<Rightarrow> int" where
  "findTraceByID rt idx traceID =
     (let rgIdx = rgs rt ! idx;
          rowMatch = startRowNum rt ! idx
      in if (case bloom rgIdx of Some bf \<Rightarrow> \<not> bf traceID | None \<Rightarrow> False) then NotFound
         else if traceID < index_min rgIdx then SearchPrevious
         else if index_max rgIdx < traceID then SearchNext
         else fst (scanPages rowMatch (pages rgIdx) traceID))"

subsection \<open>binarySearch and FindTraceByID\<close>

function binarySearch :: "RowTracker \<Rightarrow> int \<Rightarrow> int \<Rightarrow> string \<Rightarrow> int" where
  "binarySearch rt start end traceID =
     (if start > end then - 1
      else
        let midResult = findTraceByID rt (nat ((start + end) div 2)) traceID in
        if midResult = SearchPrevious
        then binarySearch rt start ((start + end) div 2 - 1) traceID
        else if midResult < 0
        then binarySearch rt ((start + end) div 2 + 1) end traceID
        else midResult)"
  by pat_completeness auto
termination
  by (relation "measure (\<lambda>(rt, start, end, traceID). nat (end - start + 1))") auto

declare binarySearch.simps [simp del]

text \<open>
  The row groups that \<open>binarySearch\<close> probes, in order: the same recursion, recording the
  index of every call of \<open>findTraceByID\<close>.
\<close>

function probed :: "RowTracker \<Rightarrow> int \<Rightarrow> int \<Rightarrow> string \<Rightarrow> nat list" where
  "probed rt start end traceID =
     (if start > end then []
      else
        let midResult = findTraceByID rt (nat ((start + end) div 2)) traceID in
        if midResult = SearchPrevious
        then nat ((start + end) div 2) # probed rt start ((start + end) div 2 - 1) traceID
        else if midResult < 0
        then nat ((start + end) div 2) # probed rt ((start + end) div 2 + 1) end traceID
        else [nat ((start + end) div 2)])"
  by pat_completeness auto
termination
  by (relation "measure (\<lambda>(rt, start, end, traceID). nat (end - start + 1))") auto

declare probed.simps [simp del]

text \<open>
  The block: the outcome of \<open>checkBloom\<close> (retrieving the bloom shard, parsing it, testing
  the id), of \<open>parquet.OpenFile\<close>, and of the materialisation of a row (\<open>ReadRow\<close>,
  \<open>Reconstruct\<close> and \<open>parquetTraceToTempopbTrace\<close>, each of which may fail). The id is
  given by its hex rendering, \<open>util.TraceIDToHexString(id)\<close>.
\<close>

datatype find_error =
    BloomRetrieveFailed
  | BloomParseFailed
  | OpenFileFailed
  | ReadRowFailed
  | ReconstructFailed
  | ConvertFailed

datatype bloom_shard = RetrieveFails | ParseFails | Filter "string \<Rightarrow> bool"

record 'trace backendBlock =
  bloom_shard :: bloom_shard
  row_groups :: "row_group list option"
  materialize :: "int \<Rightarrow> find_error + 'trace"

definition checkBloom :: "'trace backendBlock \<Rightarrow> string \<Rightarrow> find_error + bool" where
  "checkBloom b traceID =
     (case bloom_shard b of
        RetrieveFails \<Rightarrow> Inl BloomRetrieveFailed
      | ParseFails \<Rightarrow> Inl BloomParseFailed
      | Filter test \<Rightarrow> Inr (test traceID))"

text \<open>The loop that fills the row tracker: every row group with its first row number.\<close>

fun trackRows :: "RowTracker \<Rightarrow> int \<Rightarrow> row_group list \<Rightarrow> RowTracker" where
  "trackRows rt rowCount [] = rt"
| "trackRows rt rowCount (rg # rest) =
     trackRows (rt\<lparr>rgs := rgs rt @ [rg], startRowNum := startRowNum rt @ [rowCount]\<rparr>)
       (rowCount + int (rg_num_rows rg)) rest"

definition FindTraceByID :: "'trace backendBlock \<Rightarrow> string \<Rightarrow> find_error + 'trace option" where
  "FindTraceByID b traceID =
     (case checkBloom b traceID of
        Inl err \<Rightarrow> Inl err
      | Inr found \<Rightarrow>
          if \<not> found then Inr None
          else
            (case row_groups b of
               None \<Rightarrow> Inl OpenFileFailed
             | Some rowGroups \<Rightarrow>
                 let numRowGroups = length rowGroups;
                     rt = trackRows \<lparr>rgs = [], startRowNum = []\<rparr> 0 rowGroups;
                     rowMatch = binarySearch rt 0 (int numRowGroups - 1) traceID
                 in if rowMatch < 0 then Inr None
                    else
                      (case materialize b rowMatch of
                         Inl err \<Rightarrow> Inl err
                       | Inr tr \<Rightarrow> Inr (Some tr))))"

section \<open>Example blocks\<close>

text \<open>Trace ids in their rendering of 32 lowercase hex characters.\<close>

definition id1 :: string where "id1 = ''00000000000000000000000000000001''"

definition id2 :: string where "id2 = ''00000000000000000000000000000002''"

definition id3 :: string where "id3 = ''00000000000000000000000000000003''"

definition id4 :: string where "id4 = ''00000000000000000000000000000004''"

definition id5 :: string where "id5 = ''00000000000000000000000000000005''"

text \<open>The values of a page, and a reader that reports no error before its last read.\<close>

definition page_values :: "page \<Rightarrow> string list" where
  "page_values p = concat (map fst (reads p))"

definition reads_clean :: "(string list \<times> read_error option) list \<Rightarrow> bool" where
  "reads_clean rs = list_all (\<lambda>r. snd r = None) (butlast rs)"

text \<open>A page read in one call, with its bounds.\<close>

definition page_of :: "string \<Rightarrow> string \<Rightarrow> string list \<Rightarrow> page" where
  "page_of lo hi vs = \<lparr>bounds = Some (lo, hi), num_rows = length vs, reads = [(vs, Some EOF)]\<rparr>"

text \<open>A row group of one page that holds one trace id, with an exact bloom filter.\<close>

definition single_rg :: "string \<Rightarrow> row_group" where
  "single_rg v =
     \<lparr>bloom = Some (\<lambda>t. t = v), index_min = v, index_max = v,
      pages = [(Some (page_of v v [v]), None)], rg_num_rows = 1\<rparr>"

definition bloom_block :: "string backendBlock" where
  "bloom_block =
     \<lparr>bloom_shard = Filter (\<lambda>t. True),
      row_groups = Some [single_rg id1, single_rg id2, single_rg id3],
      materialize = (\<lambda>row. Inr ''trace'')\<rparr>"

text \<open>
  A block of one row group and one page that holds three trace ids; the first
  \<open>ReadValues\<close> on the page fails.
\<close>

definition failing_page :: page where
  "failing_page = \<lparr>bounds = Some (id1, id3), num_rows = 3, reads = [([], Some ReadFailed)]\<rparr>"

definition failing_block :: "string backendBlock" where
  "failing_block =
     \<lparr>bloom_shard = Filter (\<lambda>t. True),
      row_groups = Some [\<lparr>bloom = None, index_min = id1, index_max = id3,
                          pages = [(Some failing_page, None)], rg_num_rows = 3\<rparr>],
      materialize = (\<lambda>row. Inr ''trace'')\<rparr>"

section \<open>Lemmas about the codec\<close>

subsection \<open>Headers used in the examples\<close>

lemma Uvarint_count_17M: "Uvarint [0x80, 0x80, 0x80, 0x11] = (35651584, 4)"
  by (simp add: Uvarint_def MaxVarintLen64_def uint64_def)

lemma Uvarint_single_3: "Uvarint (3 # bs) = (3, 1)"
  by (simp add: Uvarint_def MaxVarintLen64_def uint64_def)

lemma Uvarint_single_5: "Uvarint (5 # bs) = (5, 1)"
  by (simp add: Uvarint_def MaxVarintLen64_def uint64_def)

lemma Uvarint_single_16: "Uvarint (0x10 # bs) = (16, 1)"
  by (simp add: Uvarint_def MaxVarintLen64_def uint64_def)

lemma Uvarint_single_0: "Uvarint (0 # bs) = (0, 1)"
  by (simp add: Uvarint_def MaxVarintLen64_def uint64_def)

lemma PutUvarint_small: "u < 128 \<Longrightarrow> PutUvarint u = [word_of_nat u]"
  by (subst PutUvarint.simps) simp

subsection \<open>The length prefix of the boolean page\<close>

lemma le32_digits:
  fixes v :: nat
  assumes "v < 2 ^ 32"
  shows "v mod 256 + (v div 256 mod 256) * 256 + (v div 65536 mod 256) * 65536
           + (v div 16777216 mod 256) * 16777216 = v"
proof -
  define q1 where "q1 = v div 256"
  define q2 where "q2 = q1 div 256"
  define q3 where "q3 = q2 div 256"
  have e2: "v div 65536 = q2" unfolding q2_def q1_def by (simp add: div_mult2_eq)
  have e3: "v div 16777216 = q3" unfolding q3_def q2_def q1_def by (simp add: div_mult2_eq)
  define r0 where "r0 = v mod 256"
  define r1 where "r1 = q1 mod 256"
  define r2 where "r2 = q2 mod 256"
  have "q3 < 256" using assms e3 by simp
  then have a: "q3 mod 256 = q3" by simp
  have b: "q2 = r2 + 256 * q3" unfolding q3_def r2_def by simp
  have c: "q1 = r1 + 256 * q2" unfolding q2_def r1_def by simp
  have d: "v = r0 + 256 * q1" unfolding q1_def r0_def by simp
  have "r0 + r1 * 256 + r2 * 65536 + q3 * 16777216 = v"
    using b c d by linarith
  then show ?thesis
    by (simp add: e2 e3 a q1_def [symmetric] r0_def [symmetric] r1_def [symmetric]
        r2_def [symmetric])
qed

lemma Uint32_PutUint32: "v < 2 ^ 32 \<Longrightarrow> Uint32 (PutUint32 b v) = v"
  using le32_digits [of v] by (simp add: Uint32_def PutUint32_def unat_of_nat)

lemma uint32_sub4: "uint32 (uint32 (m + 4) + 2 ^ 32 - 4) = m mod 2 ^ 32"
proof -
  have "(m + 4) mod 4294967296 + 4294967296 - 4 = (m + 4) mod 4294967296 + 4294967292"
    by simp
  also have "\<dots> mod 4294967296 = (m + 4 + 4294967292) mod 4294967296"
    by (simp add: mod_add_left_eq)
  also have "\<dots> = (m + 4294967296) mod 4294967296"
    by simp
  also have "\<dots> = m mod 4294967296"
    by simp
  finally show ?thesis by (simp add: uint32_def)
qed

lemma encodeBits_step_append:
  "encodeBits_step dst src i =
     (dst @ fst (encodeBits_step [] src i), snd (encodeBits_step [] src i))"
  by (simp add: encodeBits_step_def Let_def appendRunLengthBits_def appendRunLengthBytes_def
      appendBitPackedBits_def)

lemma encodeBits_loop_append:
  "encodeBits_loop dst src i = dst @ encodeBits_loop [] src i"
proof (induction "length src - i" arbitrary: dst i rule: less_induct)
  case less
  show ?case
  proof (cases "i < length src")
    case False
    then show ?thesis by (simp add: encodeBits_loop.simps [of _ src i])
  next
    case True
    let ?j = "snd (encodeBits_step [] src i)"
    have j: "length src - ?j < length src - i"
      using True encodeBits_step_advances [of i "[]" src] by simp
    have s: "snd (encodeBits_step dst src i) = ?j"
      "fst (encodeBits_step dst src i) = dst @ fst (encodeBits_step [] src i)"
      using encodeBits_step_append [of dst src i] by simp_all
    show ?thesis
      using True less [OF j, of "dst @ fst (encodeBits_step [] src i)"]
        less [OF j, of "fst (encodeBits_step [] src i)"]
      by (simp add: encodeBits_loop.simps [of dst src i] encodeBits_loop.simps [of "[]" src i] s)
  qed
qed

lemma encodeBits_append: "encodeBits dst src = dst @ encodeBits [] src"
  using encodeBits_loop_append [of dst src 0]
  by (simp add: encodeBits_def appendUvarint_def Let_def)

lemma EncodeBoolean_empty: "EncodeBoolean [] = [1, 0, 0, 0, 0]"
  by (simp add: EncodeBoolean_def encodeBits_def appendUvarint_def PutUvarint.simps [of 0]
      uint64_def uint32_def PutUint32_def Let_def)

subsection \<open>Run headers: the varint round trip\<close>

lemma unat_byte: "n < 256 \<Longrightarrow> unat (word_of_nat n :: byte) = n"
  by (simp add: unat_of_nat)

lemma byte_less_128: "n < 256 \<Longrightarrow> (word_of_nat n :: byte) < 0x80 \<longleftrightarrow> n < 128"
  by (simp add: word_less_nat_alt unat_of_nat)

lemma byte_gt_1: "n < 256 \<Longrightarrow> (word_of_nat n :: byte) > 1 \<longleftrightarrow> n > 1"
  by (simp add: word_less_nat_alt unat_of_nat)

lemma byte_and_7f: "unat ((b :: byte) AND 0x7f) = unat b mod 128"
proof -
  have "(b AND 0x7f) = take_bit 7 b"
    by (simp add: take_bit_eq_mask mask_eq_exp_minus_1)
  then show ?thesis by (simp add: take_bit_eq_mod unat_mod)
qed

lemma PutUvarint_nonempty: "PutUvarint u \<noteq> []"
  by (subst PutUvarint.simps) simp

lemma Uvarint_loop_PutUvarint:
  "i \<le> 9 \<Longrightarrow> s = 7 * i \<Longrightarrow> u < 2 ^ (64 - s) \<Longrightarrow>
   Uvarint_loop i s x (PutUvarint u @ rest) = (x + u * 2 ^ s, int (i + length (PutUvarint u)))"
proof (induction u arbitrary: i s x rule: PutUvarint.induct)
  case (1 u)
  show ?case
  proof (cases "u \<ge> 0x80")
    case False
    then have u: "u < 128" by simp
    have p: "PutUvarint u = [word_of_nat u]" using u by (subst PutUvarint.simps) simp
    have "u * 2 ^ s < 2 ^ (64 - s) * 2 ^ s" using "1.prems"(3) by simp
    also have "\<dots> = 2 ^ 64" using "1.prems"(1,2) by (simp add: power_add [symmetric])
    finally have v: "uint64 (u * 2 ^ s) = u * 2 ^ s" by (simp add: uint64_def)
    have o: "i = 9 \<Longrightarrow> \<not> u > 1" using "1.prems" by auto
    show ?thesis
      using u o "1.prems"(1)
      by (auto simp add: p MaxVarintLen64_def byte_less_128 byte_gt_1 unat_byte v)
  next
    case True
    define c :: byte where "c = word_of_nat (u mod 128 + 128)"
    have p: "PutUvarint u = c # PutUvarint (u div 128)"
      using True unfolding c_def by (subst PutUvarint.simps) simp
    have i8: "i \<le> 8"
    proof (rule ccontr)
      assume "\<not> i \<le> 8"
      then have "i = 9" using "1.prems"(1) by simp
      then show False using "1.prems"(2,3) True by simp
    qed
    then have s56: "s \<le> 56" using "1.prems"(2) by simp
    have e: "(2::nat) ^ (64 - s) = 128 * 2 ^ (64 - (s + 7))"
    proof -
      define k where "k = 64 - (s + 7)"
      have "64 - s = 7 + k" using s56 by (simp add: k_def)
      then have "(2::nat) ^ (64 - s) = 2 ^ (7 + k)" by (rule arg_cong)
      also have "\<dots> = 128 * 2 ^ k" by (simp add: power_add)
      finally show ?thesis by (simp only: k_def)
    qed
    have d: "u div 128 < 2 ^ (64 - (s + 7))"
      using "1.prems"(3) unfolding e by (simp add: less_mult_imp_div_less mult.commute)
    have "(u mod 128) * 2 ^ s < 128 * 2 ^ s" by simp
    also have "\<dots> = 2 ^ (s + 7)" by (simp add: power_add)
    also have "\<dots> \<le> 2 ^ 64" using s56 by (intro power_increasing) simp_all
    finally have v: "uint64 ((u mod 128) * 2 ^ s) = (u mod 128) * 2 ^ s"
      by (simp add: uint64_def)
    have lt: "u mod 128 + 128 < 256" by simp
    have b: "\<not> c < 0x80"
      unfolding c_def using byte_less_128 [OF lt] by simp
    have a: "unat (c AND 0x7f) = u mod 128"
      unfolding c_def byte_and_7f unat_byte [OF lt] by simp
    have ih: "Uvarint_loop (i + 1) (s + 7) (x + (u mod 128) * 2 ^ s) (PutUvarint (u div 128) @ rest) =
        (x + (u mod 128) * 2 ^ s + (u div 128) * 2 ^ (s + 7),
         int (i + 1 + length (PutUvarint (u div 128))))"
      using i8 "1.prems"(2) d by (intro "1.IH" True) simp_all
    have r: "(u mod 128) * 2 ^ s + (u div 128) * 2 ^ (s + 7) = u * 2 ^ s"
    proof -
      define m d where "m = u mod 128" and "d = u div 128"
      have u: "u = m + 128 * d" by (simp add: m_def d_def)
      have "m * 2 ^ s + d * 2 ^ (s + 7) = (m + 128 * d) * 2 ^ s"
        by (simp add: power_add algebra_simps)
      then show ?thesis unfolding u [symmetric] by (simp only: m_def d_def)
    qed
    show ?thesis
      using i8 r ih by (simp add: p MaxVarintLen64_def b a v add.assoc)
  qed
qed

lemma Uvarint_PutUvarint:
  "u < 2 ^ 64 \<Longrightarrow> Uvarint (PutUvarint u @ rest) = (u, int (length (PutUvarint u)))"
  using Uvarint_loop_PutUvarint [of 0 0 u 0 rest] by (simp add: Uvarint_def)

lemma length_PutUvarint_le: "u < 2 ^ (7 * k) \<Longrightarrow> 0 < k \<Longrightarrow> length (PutUvarint u) \<le> k"
proof (induction u arbitrary: k rule: PutUvarint.induct)
  case (1 u)
  show ?case
  proof (cases "u \<ge> 0x80")
    case False
    then show ?thesis using "1.prems" by (subst PutUvarint.simps) simp
  next
    case True
    obtain k' where k: "k = Suc k'" using "1.prems"(2) by (cases k) simp_all
    have "u < 128 * 2 ^ (7 * k')" using "1.prems"(1) by (simp add: k power_add)
    then have d: "u div 128 < 2 ^ (7 * k')" by (simp add: less_mult_imp_div_less mult.commute)
    have "k' \<noteq> 0"
    proof
      assume "k' = 0"
      then show False using True "1.prems"(1) by (simp add: k)
    qed
    then have "length (PutUvarint (u div 128)) \<le> k'" using d True by (intro "1.IH") simp_all
    then show ?thesis using True by (subst PutUvarint.simps) (simp add: k)
  qed
qed

lemma length_PutUvarint_uint64: "length (PutUvarint (uint64 n)) \<le> 10"
  by (rule length_PutUvarint_le) (simp_all add: uint64_def)

subsection \<open>Constant inputs\<close>

lemma words_same_takeWhile:
  "j \<le> length ws \<Longrightarrow>
   words_same ws p j = j + length (takeWhile (\<lambda>x. x = p) (drop j ws))"
proof (induction ws p j rule: words_same.induct)
  case (1 ws p j)
  show ?case
  proof (cases "j < length ws \<and> ws ! j = p")
    case True
    then have d: "drop j ws = p # drop (Suc j) ws" by (simp add: Cons_nth_drop_Suc [symmetric])
    show ?thesis
      using True "1.IH" by (subst words_same.simps) (simp add: d)
  next
    case False
    show ?thesis
    proof (cases "j < length ws")
      case True
      then have d: "drop j ws = ws ! j # drop (Suc j) ws" by (simp add: Cons_nth_drop_Suc)
      show ?thesis using False True by (subst words_same.simps) (simp add: d)
    next
      case False
      then show ?thesis by (subst words_same.simps) simp
    qed
  qed
qed

lemma same_run_takeWhile:
  "j \<le> length src \<Longrightarrow>
   same_run src i j = j + length (takeWhile (\<lambda>x. x = src ! i) (drop j src))"
proof (induction src i j rule: same_run.induct)
  case (1 src i j)
  show ?case
  proof (cases "j < length src")
    case True
    then have d: "drop j src = src ! j # drop (Suc j) src" by (simp add: Cons_nth_drop_Suc)
    show ?thesis
      using True "1.IH" by (subst same_run.simps) (auto simp add: d)
  next
    case False
    then show ?thesis by (subst same_run.simps) simp
  qed
qed

lemma words_of_replicate: "words_of (replicate n v) = replicate (n div 8) (replicate 8 v)"
proof (rule nth_equalityI)
  show "length (words_of (replicate n v)) = length (replicate (n div 8) (replicate 8 v))"
    by (simp add: words_of_def)
next
  fix k assume "k < length (words_of (replicate n v))"
  then have k: "k < n div 8" by (simp add: words_of_def)
  then have "8 * k + 8 \<le> n" by simp
  then have "take 8 (drop (8 * k) (replicate n v)) = replicate 8 v" by (simp add: min_def)
  then show "words_of (replicate n v) ! k = replicate (n div 8) (replicate 8 v) ! k"
    using k by (simp add: words_of_def)
qed

lemma words_same_replicate:
  "i \<le> m \<Longrightarrow> words_same (replicate m p) p i = m"
  by (simp add: words_same_takeWhile)

lemma encodeBytes_words_constant:
  assumes "0 < m"
  shows "encodeBytes_words dst (replicate m (replicate 8 v)) 0 w = appendRunLengthBytes dst (8 * m) v"
proof -
  let ?ws = "replicate m (replicate 8 v)"
  have s: "encodeBytes_step dst ?ws 0 w = (appendRunLengthBytes dst (8 * m) v, m)"
    using assms by (simp add: encodeBytes_step_def broadcast8x1_def words_same_replicate Let_def)
  show ?thesis
    using assms
    by (simp add: encodeBytes_words.simps [of dst ?ws 0] s encodeBytes_words.simps [of _ ?ws m])
qed

lemma encodeInt32_words_constant:
  assumes "0 < m"
  shows "encodeInt32_words dst (replicate m (replicate 8 v)) 0 w =
           appendRunLengthInt32 dst (8 * m) v w"
proof -
  let ?ws = "replicate m (replicate 8 v)"
  have b: "broadcast8x4 v = replicate 8 v"
    by (simp add: broadcast8x4_def numeral_eq_Suc)
  have s: "encodeInt32_step dst ?ws 0 w = (appendRunLengthInt32 dst (8 * m) v w, m)"
    using assms by (simp add: encodeInt32_step_def b words_same_replicate Let_def)
  show ?thesis
    using assms
    by (simp add: encodeInt32_words.simps [of dst ?ws 0] s encodeInt32_words.simps [of _ ?ws m])
qed

lemma same_run_replicate: "i < n \<Longrightarrow> j \<le> n \<Longrightarrow> same_run (replicate n v) i j = n"
  by (simp add: same_run_takeWhile)

lemma encodeBytes_tail_constant:
  "i \<le> n \<Longrightarrow> encodeBytes_tail dst (replicate n v) i =
     (if i < n then appendRunLengthBytes dst (n - i) v else dst)"
  by (simp add: encodeBytes_tail.simps [of dst _ i] same_run_replicate Let_def
      encodeBytes_tail.simps [of _ _ n])

lemma encodeInt32_tail_constant:
  "i \<le> n \<Longrightarrow> encodeInt32_tail dst (replicate n v) i w =
     (if i < n then appendRunLengthInt32 dst (n - i) v w else dst)"
  by (simp add: encodeInt32_tail.simps [of dst _ i] same_run_replicate Let_def
      encodeInt32_tail.simps [of _ _ n])

lemma isZero_replicate: "isZero (replicate n 0)"
  by (induction n) (simp_all add: isZero_def)

lemma isZero_Int32_zeros: "isZero (Int32ToBytes (replicate n 0))"
  by (induction n) (simp_all add: isZero_def Int32ToBytes_def int32_bytes_def)

lemma div8_tail: "n div 8 * 8 < n \<longleftrightarrow> n mod 8 \<noteq> 0" "n - n div 8 * 8 = n mod 8" for n :: nat
  by presburger+

lemma encodeBytes_constant:
  assumes "8 \<le> n" and "1 \<le> w" and "w \<le> 8"
  shows "encodeBytes [] (replicate n v) w =
           (if n mod 8 = 0 then appendRunLengthBytes [] n v
            else appendRunLengthBytes (appendRunLengthBytes [] (8 * (n div 8)) v) (n mod 8) v,
            None)"
proof -
  have m: "0 < n div 8" using assms(1) by (simp add: div_greater_zero_iff)
  have t: "n div 8 * 8 \<le> n" by simp
  have e: "n mod 8 = 0 \<Longrightarrow> 8 * (n div 8) = n" by presburger
  show ?thesis
    using assms e
    by (simp add: encodeBytes_def words_of_replicate encodeBytes_words_constant [OF m]
        encodeBytes_tail_constant [OF t] div8_tail Let_def)
qed

lemma encodeInt32_constant:
  assumes "8 \<le> n" and "1 \<le> w" and "w \<le> 32"
  shows "encodeInt32 [] (replicate n x) w =
           (if n mod 8 = 0 then appendRunLengthInt32 [] n x w
            else appendRunLengthInt32 (appendRunLengthInt32 [] (8 * (n div 8)) x w) (n mod 8) x w,
            None)"
proof -
  have m: "0 < n div 8" using assms(1) by (simp add: div_greater_zero_iff)
  have t: "n div 8 * 8 \<le> n" by simp
  have e: "n mod 8 = 0 \<Longrightarrow> 8 * (n div 8) = n" by presburger
  show ?thesis
    using assms e
    by (simp add: encodeInt32_def words_of_replicate encodeInt32_words_constant [OF m]
        encodeInt32_tail_constant [OF t] div8_tail Let_def)
qed

lemma header_small: "n < 2 ^ 32 \<Longrightarrow> length (PutUvarint (uint64 (2 * uint64 n))) \<le> 5"
proof -
  assume "n < 2 ^ 32"
  then have "uint64 (2 * uint64 n) < 2 ^ (7 * 5)" by (simp add: uint64_def)
  then show ?thesis by (rule length_PutUvarint_le) simp
qed

lemma header_tiny: "n < 8 \<Longrightarrow> length (PutUvarint (uint64 (2 * uint64 n))) \<le> 1"
proof -
  assume "n < 8"
  then have "uint64 (2 * uint64 n) < 2 ^ (7 * 1)" by (simp add: uint64_def)
  then show ?thesis by (rule length_PutUvarint_le) simp
qed

lemma ByteCount_le_4: "w \<le> 32 \<Longrightarrow> ByteCount w \<le> 4"
  by (simp add: ByteCount_def)

lemma ByteCount_1: "1 \<le> w \<Longrightarrow> w \<le> 8 \<Longrightarrow> ByteCount w = 1"
  by (simp add: ByteCount_def)

subsection \<open>The bit packer\<close>

lemma length_value_bits [simp]: "length (value_bits w v) = w"
  by (simp add: value_bits_def)

lemma length_bit_stream [simp]: "length (bit_stream w vs) = length vs * w"
  by (induction vs) (simp_all add: bit_stream_def)

lemma value_bits_horner_sum:
  "length bs = 8 \<Longrightarrow> value_bits 8 (horner_sum of_bool 2 bs :: byte) = bs"
  by (rule nth_equalityI) (simp_all add: value_bits_def bit_horner_sum_bit_word_iff)

lemma horner_sum_value_bits:
  fixes v :: "'a::len word"
  assumes "unat v < 2 ^ w"
  shows "horner_sum of_bool 2 (value_bits w v) = v"
proof -
  have "unat (take_bit w v) = unat v"
    using assms by (simp add: unsigned_take_bit_eq take_bit_nat_eq_self)
  then have "take_bit w v = v" by (simp add: word_unat_eq_iff)
  then show ?thesis by (simp add: value_bits_def horner_sum_bit_eq_take_bit)
qed

lemma concat_chunks:
  "length bits = 8 * m \<Longrightarrow> concat (map (\<lambda>k. take 8 (drop (8 * k) bits)) [0..<m]) = bits"
proof (induction m arbitrary: bits)
  case 0
  then show ?case by simp
next
  case (Suc m)
  have l: "length (drop 8 bits) = 8 * m" using Suc.prems by simp
  have "map (\<lambda>k. take 8 (drop (8 * k) bits)) [0..<Suc m] =
          take 8 bits # map (\<lambda>k. take 8 (drop (8 * k) (drop 8 bits))) [0..<m]"
    by (simp add: upt_conv_Cons map_Suc_upt [symmetric] add.commute del: upt_Suc)
  then show ?case using Suc.IH [OF l] by simp
qed

lemma chunk_of_concat:
  "\<forall>x\<in>set xss. length x = w \<Longrightarrow> j < length xss \<Longrightarrow>
   take w (drop (j * w) (concat xss)) = xss ! j"
proof (induction xss arbitrary: j)
  case Nil
  then show ?case by simp
next
  case (Cons x xss)
  show ?case
  proof (cases j)
    case 0
    then show ?thesis using Cons.prems by simp
  next
    case (Suc k)
    then show ?thesis using Cons.prems Cons.IH [of k] by simp
  qed
qed

lemma bits_of_bytes_pack:
  assumes "8 dvd length vs * w"
  shows "bits_of_bytes (pack w vs) = bit_stream w vs"
proof -
  obtain m where m: "length vs * w = 8 * m" using assms by (auto simp: dvd_def)
  have b: "ByteCount (length vs * w) = m" by (simp add: m ByteCount_def)
  have "\<And>k. k < m \<Longrightarrow>
      value_bits 8 (horner_sum of_bool 2 (take 8 (drop (8 * k) (bit_stream w vs))) :: byte) =
        take 8 (drop (8 * k) (bit_stream w vs))"
    by (rule value_bits_horner_sum) (simp add: m)
  then have eq: "map (\<lambda>k. value_bits 8
        (horner_sum of_bool 2 (take 8 (drop (8 * k) (bit_stream w vs))) :: byte)) [0..<m] =
      map (\<lambda>k. take 8 (drop (8 * k) (bit_stream w vs))) [0..<m]"
    by (intro map_cong) simp_all
  have "bits_of_bytes (pack w vs) =
      concat (map (\<lambda>k. value_bits 8
        (horner_sum of_bool 2 (take 8 (drop (8 * k) (bit_stream w vs))) :: byte)) [0..<m])"
    by (simp add: bits_of_bytes_def pack_def b comp_def)
  also have "\<dots> = concat (map (\<lambda>k. take 8 (drop (8 * k) (bit_stream w vs))) [0..<m])"
    by (simp only: eq)
  also have "\<dots> = bit_stream w vs"
    by (rule concat_chunks) (simp add: m)
  finally show ?thesis .
qed

lemma length_pack [simp]: "length (pack w vs) = ByteCount (length vs * w)"
  by (simp add: pack_def)

lemma unpack_pack:
  fixes vs :: "'a::len word list"
  assumes "8 dvd length vs * w" and "\<forall>v\<in>set vs. unat v < 2 ^ w" and "n = length vs"
  shows "unpack w n (pack w vs) = vs"
proof (rule nth_equalityI)
  show "length (unpack w n (pack w vs) :: 'a word list) = length vs"
    by (simp add: unpack_def assms(3))
next
  fix j assume "j < length (unpack w n (pack w vs) :: 'a word list)"
  then have j: "j < length vs" by (simp add: unpack_def assms(3))
  have "take w (drop (j * w) (bit_stream w vs)) = value_bits w (vs ! j)"
    unfolding bit_stream_def using j by (subst chunk_of_concat) simp_all
  then show "(unpack w n (pack w vs) :: 'a word list) ! j = vs ! j"
    using j assms(2) by (simp add: unpack_def assms(3) bits_of_bytes_pack [OF assms(1)] horner_sum_value_bits)
qed

subsection \<open>One run read back by decodeBytes\<close>

lemma cap_small: "c \<le> maxSupportedValueCount \<Longrightarrow> c < 2 ^ 62"
  by (simp add: maxSupportedValueCount_def)

lemma header_rle: "c \<le> maxSupportedValueCount \<Longrightarrow> uint64 (2 * uint64 c) = 2 * c"
  using cap_small [of c] by (simp add: uint64_def)

lemma header_bitpacked:
  assumes "k \<le> maxSupportedValueCount"
  shows "uint64 (2 * k) OR 1 = 2 * k + 1" and "uint64 (2 * uint64 k) OR 1 = 2 * k + 1"
proof -
  have "(2 * k) OR 1 = 2 * k + of_bool (even (2 * k))" by (rule or_one_eq)
  then have "(2 * k) OR 1 = 2 * k + 1" by simp
  then show "uint64 (2 * k) OR 1 = 2 * k + 1" "uint64 (2 * uint64 k) OR 1 = 2 * k + 1"
    using cap_small [OF assms] by (simp_all add: uint64_def)
qed

lemma drop_eq_append:
  assumes "drop pos src = A @ B" and "A @ B \<noteq> []"
  shows "pos < length src" and "length src = pos + length A + length B"
    and "drop (pos + length A) src = B"
proof -
  show p: "pos < length src" using assms by (cases "pos < length src") auto
  have "length (drop pos src) = length A + length B" using assms(1) by simp
  then show "length src = pos + length A + length B" using p by simp
  have "drop (length A) (drop pos src) = B" using assms(1) by simp
  then show "drop (pos + length A) src = B" by (simp add: add.commute)
qed

text \<open>The header of a run, read back at position \<open>pos\<close>.\<close>

lemma read_header:
  assumes "drop pos src = PutUvarint u @ B" and "u < 2 ^ 64"
  shows "pos < length src"
    and "Uvarint (drop pos src) = (u, int (length (PutUvarint u)))"
    and "0 < length (PutUvarint u)"
    and "length src = pos + length (PutUvarint u) + length B"
    and "drop (pos + length (PutUvarint u)) src = B"
  using drop_eq_append [OF assms(1)] PutUvarint_nonempty [of u] Uvarint_PutUvarint [OF assms(2)]
  by (simp_all add: assms(1))

lemma decodeBytes_RLE_step:
  assumes "w \<noteq> 0" and "c \<le> maxSupportedValueCount"
    and "drop pos src = appendRunLengthBytes [] c v @ R"
  shows "decodeBytes_loop d src pos w =
         decodeBytes_loop (d @ replicate c v) src (pos + length (appendRunLengthBytes [] c v)) w"
proof -
  define H where "H = PutUvarint (2 * c)"
  have run: "appendRunLengthBytes [] c v = H @ [v]"
    by (simp add: appendRunLengthBytes_def header_rle [OF assms(2)] H_def)
  have d: "drop pos src = PutUvarint (2 * c) @ (v # R)"
    using assms(3) by (simp add: run H_def)
  have c64: "2 * c < 2 ^ 64" using cap_small [OF assms(2)] by simp
  note h = read_header [OF d c64, folded H_def]
  have v: "src ! (pos + length H) = v"
    using h(5) h(4) by (metis nth_via_drop)
  show ?thesis
    using h(1,3,4) assms(1,2)
    by (simp add: decodeBytes_loop.simps [of d src pos] h(2) run v Let_def)
qed

lemma mode_bit:
  "(2 * k) AND (1::nat) = 0" "(2 * k + 1) AND (1::nat) \<noteq> 0" "(2 * k + 1) div 2 = k"
  by (simp_all add: and_one_eq)

lemma length_concat_groups:
  "\<forall>g\<in>set gs. length g = 8 \<Longrightarrow> length (concat gs) = 8 * length gs"
  by (induction gs) simp_all

lemma ByteCount_groups [simp]: "ByteCount (8 * k * w) = k * w" "ByteCount (k * 8 * w) = k * w"
  by (simp_all add: ByteCount_def)

lemma decodeBytes_bitpacked_step:
  assumes "length gs \<le> maxSupportedValueCount"
    and "\<forall>g\<in>set gs. length g = 8"
    and "\<forall>v\<in>set (concat gs). unat v < 2 ^ w"
    and "drop pos src = appendBitPackedBytes [] gs w @ R"
  shows "decodeBytes_loop d src pos w =
         decodeBytes_loop (d @ concat gs) src (pos + length (appendBitPackedBytes [] gs w)) w"
proof -
  define k where "k = length gs"
  define H where "H = PutUvarint (2 * k + 1)"
  define body where "body = pack w (concat gs)"
  have lv: "length (concat gs) = 8 * k"
    using assms(2) by (simp add: length_concat_groups k_def)
  have lb: "length body = k * w" by (simp add: body_def lv)
  have run: "appendBitPackedBytes [] gs w = H @ body"
    unfolding appendBitPackedBytes_def header_bitpacked(1) [OF assms(1)] H_def body_def k_def
    by simp
  have d: "drop pos src = PutUvarint (2 * k + 1) @ (body @ R)"
    using assms(4) by (simp add: run H_def)
  have c64: "2 * k + 1 < 2 ^ 64" using cap_small [OF assms(1)] by (simp add: k_def)
  note h = read_header [OF d c64, folded H_def]
  have t: "take (k * w) (drop (pos + length H) src) = body"
    by (simp add: h(5) lb)
  have u: "unpack w (k * 8) body = concat gs"
    unfolding body_def using assms(3) by (intro unpack_pack) (simp_all add: lv)
  show ?thesis
    using h(1,3,4) assms(1)
    by (simp add: decodeBytes_loop.simps [of d src pos] h(2) run mode_bit Let_def lb t u
        k_def [symmetric] add.assoc)
qed

subsection \<open>appendRepeat\<close>

lemma take_concat_replicate:
  "take (m * length p) (concat (replicate k p)) = concat (replicate (min m k) p)"
proof (induction k arbitrary: m)
  case 0
  show ?case by simp
next
  case (Suc k)
  show ?case
  proof (cases m)
    case 0
    then show ?thesis by simp
  next
    case (Suc m')
    then show ?thesis using Suc.IH [of m'] by simp
  qed
qed

lemma length_concat_replicate [simp]: "length (concat (replicate k p)) = k * length p"
  by (induction k) simp_all

lemma concat_replicate_add:
  "concat (replicate (a + b) p) = concat (replicate a p) @ concat (replicate b p)"
  by (simp add: replicate_add)

lemma appendRepeat_loop_fill:
  "p \<noteq> [] \<Longrightarrow> 0 < k \<Longrightarrow> k \<le> c \<Longrightarrow>
   appendRepeat_loop (concat (replicate k p)) (c * length p) = concat (replicate c p)"
proof (induction "c - k" arbitrary: k rule: less_induct)
  case less
  show ?case
  proof (cases "k < c")
    case False
    then have "k = c" using less.prems by simp
    then show ?thesis by (subst appendRepeat_loop.simps) simp
  next
    case True
    define k' where "k' = k + min (c - k) k"
    have lp: "0 < length p" using less.prems(1) by simp
    have lt: "k * length p < c * length p" using True lp by simp
    have ne: "concat (replicate k p) \<noteq> []"
      using less.prems(1,2) by (cases k) simp_all
    have "c * length p - k * length p = (c - k) * length p" by (simp add: diff_mult_distrib)
    then have step: "concat (replicate k p) @
        take (c * length p - k * length p) (concat (replicate k p)) =
        concat (replicate k' p)"
      by (simp add: take_concat_replicate k'_def concat_replicate_add)
    have m: "c - k' < c - k" "0 < k'" "k' \<le> c"
      using True less.prems(2) by (simp_all add: k'_def)
    have "appendRepeat_loop (concat (replicate k p)) (c * length p) =
          appendRepeat_loop (concat (replicate k' p)) (c * length p)"
      using lt ne by (subst appendRepeat_loop.simps) (simp add: step)
    then show ?thesis using less.hyps [OF m(1) less.prems(1) m(2,3)] by simp
  qed
qed

lemma appendRepeat_eq:
  "p \<noteq> [] \<Longrightarrow> appendRepeat dst p c = dst @ concat (replicate c p)"
proof (cases c)
  case 0
  then show ?thesis by (simp add: appendRepeat_def appendRepeat_loop.simps [of "[]"])
next
  case (Suc c')
  assume p: "p \<noteq> []"
  have t: "take (c * length p) p = concat (replicate 1 p)" by (simp add: Suc)
  show ?thesis
    unfolding appendRepeat_def Let_def t
    using appendRepeat_loop_fill [OF p, of 1 c] by (simp add: Suc)
qed

subsection \<open>The value bytes of an int32 run\<close>

lemma high_byte_zero:
  fixes v :: int32
  assumes "unat v < 2 ^ n"
  shows "(ucast (drop_bit n v) :: byte) = 0"
proof -
  have "unat (drop_bit n v) = drop_bit n (unat v)" by (rule unat_drop_bit_eq)
  also have "\<dots> = unat v div 2 ^ n" by (rule drop_bit_eq_div)
  also have "\<dots> = 0" using assms by simp
  finally have "unat (drop_bit n v) = 0" .
  then have "drop_bit n v = 0" by (simp add: unat_eq_0)
  then show ?thesis by simp
qed

lemma int32_value_bytes:
  fixes v :: int32
  assumes "w \<le> 32" and "unat v < 2 ^ w"
  shows "take 4 (take (ByteCount w) (int32_bytes v) @ [0, 0, 0, 0]) = int32_bytes v"
proof -
  have le: "unat v < 2 ^ (8 * ByteCount w)"
  proof -
    have "w \<le> 8 * ByteCount w" by (simp add: ByteCount_def)
    then have "(2::nat) ^ w \<le> 2 ^ (8 * ByteCount w)" by (intro power_increasing) simp_all
    with assms(2) show ?thesis by (rule less_le_trans)
  qed
  have b: "ByteCount w \<le> 4" using assms(1) by (simp add: ByteCount_def)
  consider "ByteCount w = 0" | "ByteCount w = 1" | "ByteCount w = 2" | "ByteCount w = 3"
    | "ByteCount w = 4" using b by linarith
  then show ?thesis
  proof cases
    case 1
    then have "unat v < 2 ^ 0" using le by simp
    then have "v = 0" by (simp add: unat_eq_0)
    then show ?thesis by (simp add: 1 int32_bytes_def)
  next
    case 2
    then have l: "unat v < 2 ^ 8" using le by simp
    have "unat v < 2 ^ 16" "unat v < 2 ^ 24" using l by simp_all
    then show ?thesis using l
      by (simp add: 2 int32_bytes_def high_byte_zero)
  next
    case 3
    then have l: "unat v < 2 ^ 16" using le by simp
    have "unat v < 2 ^ 24" using l by simp
    then show ?thesis using l
      by (simp add: 3 int32_bytes_def high_byte_zero)
  next
    case 4
    then have l: "unat v < 2 ^ 24" using le by simp
    then show ?thesis
      by (simp add: 4 int32_bytes_def high_byte_zero)
  next
    case 5
    then show ?thesis by (simp add: int32_bytes_def)
  qed
qed

subsection \<open>One run read back by decodeInt32\<close>

lemma Int32ToBytes_replicate: "Int32ToBytes (replicate c v) = concat (replicate c (int32_bytes v))"
  by (simp add: Int32ToBytes_def)

lemma length_int32_bytes [simp]: "length (int32_bytes v) = 4"
  by (simp add: int32_bytes_def)

lemma decodeInt32_RLE_step:
  assumes "w \<le> 32" and "c \<le> maxSupportedValueCount" and "unat v < 2 ^ w"
    and "drop pos src = appendRunLengthInt32 [] c v w @ R"
  shows "decodeInt32_loop d src spare pos w =
         decodeInt32_loop (d @ Int32ToBytes (replicate c v)) src spare
           (pos + length (appendRunLengthInt32 [] c v w)) w"
proof -
  define H where "H = PutUvarint (2 * c)"
  define body where "body = take (ByteCount w) (int32_bytes v)"
  have b4: "ByteCount w \<le> 4" using assms(1) by (simp add: ByteCount_def)
  have lb: "length body = ByteCount w" using b4 by (simp add: body_def)
  have run: "appendRunLengthInt32 [] c v w = H @ body"
    by (simp add: appendRunLengthInt32_def header_rle [OF assms(2)] H_def body_def)
  have d: "drop pos src = PutUvarint (2 * c) @ (body @ R)"
    using assms(4) by (simp add: run H_def)
  have c64: "2 * c < 2 ^ 64" using cap_small [OF assms(2)] by simp
  note h = read_header [OF d c64, folded H_def]
  have t: "take (ByteCount w) (drop (pos + length H) src) = body"
    by (simp add: h(5) lb)
  have bits: "take 4 (body @ [0, 0, 0, 0]) = int32_bytes v"
    unfolding body_def by (rule int32_value_bytes [OF assms(1,3)])
  have r: "appendRepeat d (int32_bytes v) c = d @ Int32ToBytes (replicate c v)"
    by (subst appendRepeat_eq) (simp_all add: Int32ToBytes_replicate int32_bytes_def)
  show ?thesis
    using h(1,3,4) assms(2) bits
    by (simp add: decodeInt32_loop.simps [of d src spare pos] h(2) run mode_bit Let_def lb t
        r add.assoc)
qed

lemma decodeInt32_bitpacked_step:
  assumes "length gs \<le> maxSupportedValueCount"
    and "\<forall>g\<in>set gs. length g = 8"
    and "\<forall>v\<in>set (concat gs). unat v < 2 ^ w"
    and "drop pos src = appendBitPackedInt32 [] gs w @ R"
  shows "decodeInt32_loop d src spare pos w =
         decodeInt32_loop (d @ Int32ToBytes (concat gs)) src spare
           (pos + length (appendBitPackedInt32 [] gs w)) w"
proof -
  define k where "k = length gs"
  define H where "H = PutUvarint (2 * k + 1)"
  define body where "body = pack w (concat gs)"
  have lv: "length (concat gs) = 8 * k"
    using assms(2) by (simp add: length_concat_groups k_def)
  have lb: "length body = k * w" by (simp add: body_def lv)
  have e: "encodeInt32Bitpack gs w = body"
    using lb by (simp add: encodeInt32Bitpack_def body_def k_def)
  have run: "appendBitPackedInt32 [] gs w = H @ body"
    unfolding appendBitPackedInt32_def header_bitpacked(2) [OF assms(1)] H_def e k_def
    by simp
  have d: "drop pos src = PutUvarint (2 * k + 1) @ (body @ R)"
    using assms(4) by (simp add: run H_def)
  have c64: "2 * k + 1 < 2 ^ 64" using cap_small [OF assms(1)] by (simp add: k_def)
  note h = read_header [OF d c64, folded H_def]
  have "drop (pos + length H) (src @ spare) = (body @ R) @ spare"
    using h(4,5) by simp
  then have t: "take (k * w) (drop (pos + length H) (src @ spare)) = body"
    by (simp add: lb)
  have t': "take (k * w) (drop (pos + length H) src) = body"
    by (simp add: h(5) lb)
  have u: "unpack w (8 * k) body = concat gs"
    unfolding body_def using assms(3) by (intro unpack_pack) (simp_all add: lv)
  show ?thesis
    using h(1,3,4) assms(1)
    by (simp add: decodeInt32_loop.simps [of d src spare pos] h(2) run mode_bit Let_def lb t t' u
        k_def [symmetric] add.assoc)
qed

subsection \<open>A loop that appends runs, read back by a loop that consumes them\<close>

lemma run_loop_append:
  fixes loop :: "byte list \<Rightarrow> nat \<Rightarrow> byte list" and step :: "byte list \<Rightarrow> nat \<Rightarrow> byte list \<times> nat"
  assumes loop: "\<And>dst i. loop dst i = (if i < n then loop (fst (step dst i)) (snd (step dst i)) else dst)"
    and app: "\<And>dst i. i < n \<Longrightarrow> step dst i = (dst @ fst (step [] i), snd (step [] i))"
    and adv: "\<And>i. i < n \<Longrightarrow> i < snd (step [] i)"
  shows "loop dst i = dst @ loop [] i"
proof (induction "n - i" arbitrary: dst i rule: less_induct)
  case less
  show ?case
  proof (cases "i < n")
    case False
    then show ?thesis by (simp add: loop [of _ i])
  next
    case True
    let ?j = "snd (step [] i)" and ?r = "fst (step [] i)"
    have m: "n - ?j < n - i" using adv [OF True] True by simp
    have "loop dst i = loop (dst @ ?r) ?j"
      using True app [OF True, of dst] by (simp add: loop [of dst i])
    also have "\<dots> = dst @ ?r @ loop [] ?j"
      using less [OF m, of "dst @ ?r"] by simp
    also have "?r @ loop [] ?j = loop ?r ?j"
      using less [OF m, of ?r] by simp
    also have "loop ?r ?j = loop [] i"
      using True by (simp add: loop [of "[]" i])
    finally show ?thesis .
  qed
qed

lemma run_loop_decodes:
  fixes loop :: "byte list \<Rightarrow> nat \<Rightarrow> byte list" and step :: "byte list \<Rightarrow> nat \<Rightarrow> byte list \<times> nat"
    and D :: "byte list \<Rightarrow> nat \<Rightarrow> 'r" and out :: "nat \<Rightarrow> byte list"
  assumes loop: "\<And>dst i. loop dst i = (if i < n then loop (fst (step dst i)) (snd (step dst i)) else dst)"
    and app: "\<And>dst i. i < n \<Longrightarrow> step dst i = (dst @ fst (step [] i), snd (step [] i))"
    and adv: "\<And>i. i < n \<Longrightarrow> i < snd (step [] i)"
    and dec: "\<And>i d pos R. i < n \<Longrightarrow> drop pos E = fst (step [] i) @ R \<Longrightarrow>
        \<exists>o'. out i = o' @ out (snd (step [] i)) \<and>
             D d pos = D (d @ o') (pos + length (fst (step [] i)))"
    and fin: "\<And>i. n \<le> i \<Longrightarrow> out i = []"
  shows "drop pos E = loop [] i @ R \<Longrightarrow> D d pos = D (d @ out i) (pos + length (loop [] i))"
proof (induction "n - i" arbitrary: d i pos rule: less_induct)
  case less
  show ?case
  proof (cases "i < n")
    case False
    then show ?thesis by (simp add: loop [of _ i] fin)
  next
    case True
    let ?j = "snd (step [] i)" and ?r = "fst (step [] i)"
    have m: "n - ?j < n - i" using adv [OF True] True by simp
    have l: "loop [] i = ?r @ loop [] ?j"
      using True run_loop_append [of loop n step ?r ?j, OF loop app adv]
      by (simp add: loop [of "[]" i])
    have dr: "drop pos E = ?r @ (loop [] ?j @ R)" using less.prems by (simp add: l)
    obtain o' where o: "out i = o' @ out ?j"
      and s: "D d pos = D (d @ o') (pos + length ?r)"
      using dec [OF True dr, of d] by blast
    have dr': "drop (pos + length ?r) E = loop [] ?j @ R"
    proof -
      have "drop (length ?r) (drop pos E) = loop [] ?j @ R" by (simp add: dr)
      then show ?thesis by (simp add: add.commute)
    qed
    have "D (d @ o') (pos + length ?r) =
          D ((d @ o') @ out ?j) (pos + length ?r + length (loop [] ?j))"
      by (rule less.hyps [OF m dr'])
    then show ?thesis using s by (simp add: o l add.assoc)
  qed
qed

subsection \<open>The loops of encodeBytes\<close>

lemma takeWhile_eq_replicate:
  "takeWhile (\<lambda>x. x = p) xs = replicate (length (takeWhile (\<lambda>x. x = p) xs)) p"
  by (induction xs) simp_all

lemma concat_replicate_groups: "concat (replicate n (replicate 8 v)) = replicate (8 * n) v"
  by (induction n) (simp_all add: replicate_add [symmetric])

lemma split_at:
  "i \<le> j \<Longrightarrow> drop i xs = take (j - i) (drop i xs) @ drop j xs"
proof -
  assume le: "i \<le> j"
  have "take (j - i) (drop i xs) @ drop (j - i) (drop i xs) = drop i xs"
    by (rule append_take_drop_id)
  moreover have "drop (j - i) (drop i xs) = drop j xs" using le by simp
  ultimately show ?thesis by simp
qed

lemma concat_split_at:
  "i \<le> j \<Longrightarrow> concat (drop i xs) = concat (take (j - i) (drop i xs)) @ concat (drop j xs)"
  using split_at [of i j xs] by (metis concat_append)

lemma words_same_run:
  assumes "i \<le> length ws"
  shows "take (words_same ws p i - i) (drop i ws) = replicate (words_same ws p i - i) p"
proof -
  let ?tw = "takeWhile (\<lambda>x. x = p) (drop i ws)"
  have j: "words_same ws p i - i = length ?tw" by (simp add: words_same_takeWhile [OF assms])
  have "take (length ?tw) (drop i ws) = ?tw" by (rule takeWhile_eq_take [symmetric])
  also have "\<dots> = replicate (length ?tw) p" by (rule takeWhile_eq_replicate)
  finally show ?thesis by (simp add: j)
qed

lemma same_run_run:
  assumes "i < length xs"
  shows "take (same_run xs i (i + 1) - i) (drop i xs) = replicate (same_run xs i (i + 1) - i) (xs ! i)"
proof -
  let ?tw = "takeWhile (\<lambda>x. x = xs ! i) (drop (i + 1) xs)"
  have j: "same_run xs i (i + 1) - i = Suc (length ?tw)"
    using assms by (simp add: same_run_takeWhile)
  have d: "drop i xs = xs ! i # drop (i + 1) xs"
    using assms by (simp add: Cons_nth_drop_Suc)
  have "take (length ?tw) (drop (i + 1) xs) = ?tw" by (rule takeWhile_eq_take [symmetric])
  also have "\<dots> = replicate (length ?tw) (xs ! i)" by (rule takeWhile_eq_replicate)
  finally show ?thesis using j by (simp add: d)
qed

lemma encodeBytes_step_append:
  "encodeBytes_step dst ws i w =
     (dst @ fst (encodeBytes_step [] ws i w), snd (encodeBytes_step [] ws i w))"
  by (simp add: encodeBytes_step_def Let_def appendRunLengthBytes_def appendBitPackedBytes_def)

lemma encodeBytes_step_le:
  "i < length ws \<Longrightarrow> snd (encodeBytes_step [] ws i w) \<le> length ws"
  using words_same_le [of i ws "broadcast8x1 (ws ! i)"]
    bytes_mixed_le [of "words_same ws (broadcast8x1 (ws ! i)) i + 1" ws]
    words_same_ge [of i ws "broadcast8x1 (ws ! i)"]
  by (auto simp: encodeBytes_step_def Let_def)

lemma encodeBytes_step_decodes:
  assumes i: "i < length ws" and w: "w \<noteq> 0"
    and cap: "8 * length ws \<le> maxSupportedValueCount"
    and G: "\<forall>g\<in>set ws. length g = 8"
    and V: "\<forall>v\<in>set (concat ws). unat v < 2 ^ w"
    and d: "drop pos E = fst (encodeBytes_step [] ws i w) @ R"
  shows "\<exists>o'. concat (drop i ws) = o' @ concat (drop (snd (encodeBytes_step [] ws i w)) ws) \<and>
           decodeBytes_loop dst E pos w =
           decodeBytes_loop (dst @ o') E (pos + length (fst (encodeBytes_step [] ws i w))) w"
proof -
  define p where "p = broadcast8x1 (ws ! i)"
  define j0 where "j0 = words_same ws p i"
  have j0: "i \<le> j0" "j0 \<le> length ws"
    using words_same_ge [of i ws p] words_same_le [of i ws p] i by (simp_all add: j0_def)
  show ?thesis
  proof (cases "i < j0")
    case True
    define c where "c = 8 * (j0 - i)"
    have s: "encodeBytes_step [] ws i w = (appendRunLengthBytes [] c (p ! 0), j0)"
      using True by (simp add: encodeBytes_step_def Let_def p_def [symmetric] j0_def [symmetric] c_def)
    have c: "c \<le> maxSupportedValueCount" using cap j0 by (simp add: c_def)
    have "take (j0 - i) (drop i ws) = replicate (j0 - i) p"
      unfolding j0_def using i by (intro words_same_run) simp
    then have o: "concat (take (j0 - i) (drop i ws)) = replicate c (p ! 0)"
      by (simp add: p_def broadcast8x1_def concat_replicate_groups c_def)
    have "decodeBytes_loop dst E pos w =
          decodeBytes_loop (dst @ replicate c (p ! 0)) E
            (pos + length (appendRunLengthBytes [] c (p ! 0))) w"
      using d by (intro decodeBytes_RLE_step [OF w c]) (simp add: s)
    then show ?thesis
      using concat_split_at [OF j0(1), of ws] by (intro exI [of _ "replicate c (p ! 0)"]) (simp add: s o)
  next
    case False
    define j where "j = bytes_mixed ws (Suc j0)"
    define gs where "gs = take (j - i) (drop i ws)"
    have j: "i < j" "j \<le> length ws"
      using bytes_mixed_ge [of "Suc j0" ws] bytes_mixed_le [of "Suc j0" ws] j0 False i
      by (simp_all add: j_def)
    have s: "encodeBytes_step [] ws i w = (appendBitPackedBytes [] gs w, j)"
      using False
      by (simp add: encodeBytes_step_def Let_def p_def [symmetric] j0_def [symmetric]
          j_def [symmetric] gs_def)
    have sub: "set gs \<subseteq> set ws"
      unfolding gs_def by (meson set_take_subset set_drop_subset subset_trans)
    have lg: "length gs \<le> maxSupportedValueCount" using cap j by (simp add: gs_def)
    have G': "\<forall>g\<in>set gs. length g = 8" using G sub by auto
    have V': "\<forall>v\<in>set (concat gs). unat v < 2 ^ w" using V sub by auto
    have "decodeBytes_loop dst E pos w =
          decodeBytes_loop (dst @ concat gs) E (pos + length (appendBitPackedBytes [] gs w)) w"
      using d by (intro decodeBytes_bitpacked_step [OF lg G' V']) (simp add: s)
    then show ?thesis
      using concat_split_at [of i j ws] j(1)
      by (intro exI [of _ "concat gs"]) (simp add: s gs_def)
  qed
qed

lemma encodeBytes_words_decodes:
  assumes w: "w \<noteq> 0"
    and cap: "8 * length ws \<le> maxSupportedValueCount"
    and G: "\<forall>g\<in>set ws. length g = 8"
    and V: "\<forall>v\<in>set (concat ws). unat v < 2 ^ w"
    and d: "drop pos E = encodeBytes_words [] ws i w @ R"
  shows "decodeBytes_loop dst E pos w =
         decodeBytes_loop (dst @ concat (drop i ws)) E (pos + length (encodeBytes_words [] ws i w)) w"
proof (rule run_loop_decodes [where loop = "\<lambda>dst i. encodeBytes_words dst ws i w"
      and step = "\<lambda>dst i. encodeBytes_step dst ws i w" and n = "length ws"
      and D = "\<lambda>dst pos. decodeBytes_loop dst E pos w" and out = "\<lambda>i. concat (drop i ws)"
      and E = E and R = R])
  show "encodeBytes_words dst ws i w =
      (if i < length ws
       then encodeBytes_words (fst (encodeBytes_step dst ws i w)) ws (snd (encodeBytes_step dst ws i w)) w
       else dst)" for dst i
    by (rule encodeBytes_words.simps)
  show "encodeBytes_step dst ws i w =
      (dst @ fst (encodeBytes_step [] ws i w), snd (encodeBytes_step [] ws i w))" for dst i
    by (rule encodeBytes_step_append)
  show "i < snd (encodeBytes_step [] ws i w)" for i
    by (rule encodeBytes_step_advances)
  show "\<exists>o'. concat (drop i ws) = o' @ concat (drop (snd (encodeBytes_step [] ws i w)) ws) \<and>
           decodeBytes_loop d E pos w =
           decodeBytes_loop (d @ o') E (pos + length (fst (encodeBytes_step [] ws i w))) w"
    if "i < length ws" and "drop pos E = fst (encodeBytes_step [] ws i w) @ R" for i d pos R
    using that by (intro encodeBytes_step_decodes [OF _ w cap G V])
  show "concat (drop i ws) = []" if "length ws \<le> i" for i
    using that by simp
  show "drop pos E = encodeBytes_words [] ws i w @ R" by (rule d)
qed

lemma encodeBytes_tail_decodes:
  assumes w: "w \<noteq> 0"
    and cap: "length xs \<le> maxSupportedValueCount"
    and d: "drop pos E = encodeBytes_tail [] xs i @ R"
  shows "decodeBytes_loop dst E pos w =
         decodeBytes_loop (dst @ drop i xs) E (pos + length (encodeBytes_tail [] xs i)) w"
proof (rule run_loop_decodes [where loop = "\<lambda>dst i. encodeBytes_tail dst xs i"
      and step = "\<lambda>dst i. (appendRunLengthBytes dst (same_run xs i (i + 1) - i) (xs ! i),
                            same_run xs i (i + 1))"
      and n = "length xs" and D = "\<lambda>dst pos. decodeBytes_loop dst E pos w"
      and out = "\<lambda>i. drop i xs" and E = E and R = R])
  show "encodeBytes_tail dst xs i =
      (if i < length xs
       then encodeBytes_tail
              (fst (appendRunLengthBytes dst (same_run xs i (i + 1) - i) (xs ! i), same_run xs i (i + 1)))
              xs
              (snd (appendRunLengthBytes dst (same_run xs i (i + 1) - i) (xs ! i), same_run xs i (i + 1)))
       else dst)" for dst i
    by (subst encodeBytes_tail.simps) (simp add: Let_def)
  show "(appendRunLengthBytes dst (same_run xs i (i + 1) - i) (xs ! i), same_run xs i (i + 1)) =
      (dst @ fst (appendRunLengthBytes [] (same_run xs i (i + 1) - i) (xs ! i), same_run xs i (i + 1)),
       snd (appendRunLengthBytes [] (same_run xs i (i + 1) - i) (xs ! i), same_run xs i (i + 1)))"
    for dst i
    by (simp add: appendRunLengthBytes_def)
  show "i < snd (appendRunLengthBytes [] (same_run xs i (i + 1) - i) (xs ! i), same_run xs i (i + 1))"
    for i
    using same_run_ge [of "i + 1" xs i] by simp
  show "\<exists>o'. drop i xs =
            o' @ drop (snd (appendRunLengthBytes [] (same_run xs i (i + 1) - i) (xs ! i),
                            same_run xs i (i + 1))) xs \<and>
           decodeBytes_loop d E pos w =
           decodeBytes_loop (d @ o') E
             (pos + length (fst (appendRunLengthBytes [] (same_run xs i (i + 1) - i) (xs ! i),
                                 same_run xs i (i + 1)))) w"
    if i: "i < length xs"
      and dr: "drop pos E =
        fst (appendRunLengthBytes [] (same_run xs i (i + 1) - i) (xs ! i), same_run xs i (i + 1)) @ R"
    for i d pos R
  proof -
    define j where "j = same_run xs i (Suc i)"
    have j: "i < j" "j \<le> length xs"
      using same_run_ge [of "Suc i" xs i] same_run_le [of "Suc i" xs i] i by (simp_all add: j_def)
    have c: "j - i \<le> maxSupportedValueCount" using cap j by simp
    have o: "take (j - i) (drop i xs) = replicate (j - i) (xs ! i)"
      unfolding j_def using same_run_run [OF i] by simp
    have "decodeBytes_loop d E pos w =
          decodeBytes_loop (d @ replicate (j - i) (xs ! i)) E
            (pos + length (appendRunLengthBytes [] (j - i) (xs ! i))) w"
      using dr by (intro decodeBytes_RLE_step [OF w c]) (simp add: j_def)
    then show ?thesis
      using split_at [of i j xs] j(1)
      by (intro exI [of _ "replicate (j - i) (xs ! i)"]) (simp add: o j_def [symmetric])
  qed
  show "drop i xs = []" if "length xs \<le> i" for i
    using that by simp
  show "drop pos E = encodeBytes_tail [] xs i @ R" by (rule d)
qed

lemma encodeBytes_tail_append: "encodeBytes_tail dst xs i = dst @ encodeBytes_tail [] xs i"
proof (rule run_loop_append [where loop = "\<lambda>dst i. encodeBytes_tail dst xs i"
      and step = "\<lambda>dst i. (appendRunLengthBytes dst (same_run xs i (i + 1) - i) (xs ! i),
                            same_run xs i (i + 1))"
      and n = "length xs"])
  show "encodeBytes_tail dst xs i =
      (if i < length xs
       then encodeBytes_tail
              (fst (appendRunLengthBytes dst (same_run xs i (i + 1) - i) (xs ! i), same_run xs i (i + 1)))
              xs
              (snd (appendRunLengthBytes dst (same_run xs i (i + 1) - i) (xs ! i), same_run xs i (i + 1)))
       else dst)" for dst i
    by (subst encodeBytes_tail.simps) (simp add: Let_def)
  show "(appendRunLengthBytes dst (same_run xs i (i + 1) - i) (xs ! i), same_run xs i (i + 1)) =
      (dst @ fst (appendRunLengthBytes [] (same_run xs i (i + 1) - i) (xs ! i), same_run xs i (i + 1)),
       snd (appendRunLengthBytes [] (same_run xs i (i + 1) - i) (xs ! i), same_run xs i (i + 1)))"
    for dst i
    by (simp add: appendRunLengthBytes_def)
  show "i < snd (appendRunLengthBytes [] (same_run xs i (i + 1) - i) (xs ! i), same_run xs i (i + 1))"
    for i
    using same_run_ge [of "i + 1" xs i] by simp
qed

lemma length_words_of [simp]: "length (words_of xs) = length xs div 8"
  by (simp add: words_of_def)

lemma words_of_groups: "\<forall>g\<in>set (words_of xs). length g = 8"
proof
  fix g assume "g \<in> set (words_of xs)"
  then obtain k where k: "k < length xs div 8" and g: "g = take 8 (drop (8 * k) xs)"
    by (auto simp: words_of_def)
  have "8 * k + 8 \<le> length xs" using k by simp
  then show "length g = 8" by (simp add: g)
qed

lemma concat_words_of: "concat (words_of xs) = take (length xs div 8 * 8) xs"
proof -
  let ?m = "length xs div 8"
  let ?ys = "take (?m * 8) xs"
  have l: "length ?ys = 8 * ?m" by simp
  have "map (\<lambda>k. take 8 (drop (8 * k) xs)) [0..<?m] = map (\<lambda>k. take 8 (drop (8 * k) ?ys)) [0..<?m]"
  proof (intro map_cong refl)
    fix k assume "k \<in> set [0..<?m]"
    then have "8 * k + 8 \<le> ?m * 8" by simp
    then show "take 8 (drop (8 * k) xs) = take 8 (drop (8 * k) ?ys)"
      by (simp add: drop_take min_def)
  qed
  then have "concat (words_of xs) = concat (map (\<lambda>k. take 8 (drop (8 * k) ?ys)) [0..<?m])"
    by (simp only: words_of_def)
  also have "\<dots> = ?ys" by (rule concat_chunks [OF l])
  finally show ?thesis .
qed

lemma decodeBytes_loop_end: "length E \<le> pos \<Longrightarrow> decodeBytes_loop dst E pos w = (dst, None)"
  by (subst decodeBytes_loop.simps) simp

lemma all_zero_values:
  fixes xs :: "'a::len word list"
  shows "\<forall>x\<in>set xs. unat x < 2 ^ 0 \<Longrightarrow> xs = replicate (length xs) 0"
  by (induction xs) (simp_all add: unat_eq_0)

lemma encodeBytes_then:
  assumes w: "w \<le> 8" and cap: "length xs \<le> maxSupportedValueCount"
    and V: "\<forall>x\<in>set xs. unat x < 2 ^ w"
  shows "snd (encodeBytes [] xs w) = None"
    and "decodeBytes_loop [] (fst (encodeBytes [] xs w) @ R) 0 w =
         decodeBytes_loop xs (fst (encodeBytes [] xs w) @ R) (length (fst (encodeBytes [] xs w))) w"
proof -
  have "snd (encodeBytes [] xs w) = None \<and>
        decodeBytes_loop [] (fst (encodeBytes [] xs w) @ R) 0 w =
        decodeBytes_loop xs (fst (encodeBytes [] xs w) @ R) (length (fst (encodeBytes [] xs w))) w"
  proof (cases "w = 0")
    case True
    define n where "n = length xs"
    have xs: "xs = replicate n 0" using V all_zero_values [of xs] by (simp add: True n_def)
    have n: "n \<le> maxSupportedValueCount" using cap by (simp add: n_def)
    define H where "H = PutUvarint (2 * n)"
    have e: "encodeBytes [] (replicate n 0) 0 = (H, None)"
      by (simp add: encodeBytes_def isZero_replicate appendUvarint_def header_rle [OF n] H_def)
    have d: "drop 0 (H @ R) = PutUvarint (2 * n) @ R" by (simp add: H_def)
    have c64: "2 * n < 2 ^ 64" using cap_small [OF n] by simp
    note h = read_header [OF d c64, folded H_def]
    have "decodeBytes_loop [] (H @ R) 0 0 = decodeBytes_loop (replicate n 0) (H @ R) (length H) 0"
      using h(1,3) n
      by (simp add: decodeBytes_loop.simps [of "[]" "H @ R" 0] h(2) [simplified] mode_bit Let_def)
    then have "snd (encodeBytes [] (replicate n 0) 0) = None \<and>
        decodeBytes_loop [] (fst (encodeBytes [] (replicate n 0) 0) @ R) 0 0 =
        decodeBytes_loop (replicate n 0) (fst (encodeBytes [] (replicate n 0) 0) @ R)
          (length (fst (encodeBytes [] (replicate n 0) 0))) 0"
      by (simp add: e)
    then show ?thesis unfolding True by (subst (1 2 3 4 5) xs)
  next
    case False
    define ws where "ws = words_of xs"
    define t where "t = length xs div 8 * 8"
    define Ew where "Ew = encodeBytes_words [] ws 0 w"
    define Et where "Et = encodeBytes_tail [] xs t"
    define E where "E = Ew @ Et"
    have short: "length xs < 8 \<Longrightarrow> Ew = []"
      by (simp add: Ew_def ws_def encodeBytes_words.simps [of "[]" _ 0])
    have e0: "encodeBytes [] xs w =
        (encodeBytes_tail (if 8 \<le> length xs then Ew else []) xs t, None)"
      using w False by (simp add: encodeBytes_def Let_def Ew_def ws_def t_def)
    have "(if 8 \<le> length xs then Ew else []) = Ew" using short by simp
    then have e: "encodeBytes [] xs w = (E, None)"
      using encodeBytes_tail_append [of Ew xs t] by (simp add: e0 E_def Et_def)
    have capw: "8 * length ws \<le> maxSupportedValueCount"
      using cap by (simp add: ws_def)
    have G: "\<forall>g\<in>set ws. length g = 8" unfolding ws_def by (rule words_of_groups)
    have cw: "concat ws = take t xs" by (simp add: ws_def t_def concat_words_of)
    have V': "\<forall>v\<in>set (concat ws). unat v < 2 ^ w"
      using V by (auto simp: cw dest: in_set_takeD)
    have d1: "drop 0 (E @ R) = encodeBytes_words [] ws 0 w @ (Et @ R)" by (simp add: E_def Ew_def)
    have s1: "decodeBytes_loop [] (E @ R) 0 w = decodeBytes_loop (concat ws) (E @ R) (length Ew) w"
      using encodeBytes_words_decodes [OF False capw G V' d1, of "[]"] by (simp add: Ew_def)
    have d2: "drop (length Ew) (E @ R) = encodeBytes_tail [] xs t @ R" by (simp add: E_def Et_def)
    have s2: "decodeBytes_loop (concat ws) (E @ R) (length Ew) w =
              decodeBytes_loop (concat ws @ drop t xs) (E @ R) (length E) w"
      using encodeBytes_tail_decodes [OF False cap d2, of "concat ws"] by (simp add: E_def Et_def)
    have "decodeBytes_loop [] (E @ R) 0 w = decodeBytes_loop (concat ws @ drop t xs) (E @ R) (length E) w"
      by (simp only: s1 s2)
    then show ?thesis by (simp add: e cw)
  qed
  then show "snd (encodeBytes [] xs w) = None"
    and "decodeBytes_loop [] (fst (encodeBytes [] xs w) @ R) 0 w =
         decodeBytes_loop xs (fst (encodeBytes [] xs w) @ R) (length (fst (encodeBytes [] xs w))) w"
    by simp_all
qed

lemma encodeBytes_roundtrip:
  assumes w: "w \<le> 8" and cap: "length xs \<le> maxSupportedValueCount"
    and V: "\<forall>x\<in>set xs. unat x < 2 ^ w"
  shows "snd (encodeBytes [] xs w) = None \<and>
         decodeBytes [] (fst (encodeBytes [] xs w)) w = (xs, None)"
  using encodeBytes_then(1) [OF assms] encodeBytes_then(2) [OF assms, of "[]"] w
  by (simp add: decodeBytes_def decodeBytes_loop_end)

subsection \<open>The loops of encodeInt32\<close>

lemma Int32ToBytes_append: "Int32ToBytes (a @ b) = Int32ToBytes a @ Int32ToBytes b"
  by (simp add: Int32ToBytes_def)

lemma broadcast8x4_replicate: "broadcast8x4 v = replicate 8 v"
  by (simp add: broadcast8x4_def numeral_eq_Suc)

lemma encodeInt32_step_append:
  "encodeInt32_step dst ws i w =
     (dst @ fst (encodeInt32_step [] ws i w), snd (encodeInt32_step [] ws i w))"
  by (simp add: encodeInt32_step_def Let_def appendRunLengthInt32_def appendBitPackedInt32_def)

lemma encodeInt32_step_decodes:
  assumes i: "i < length ws" and w: "w \<le> 32"
    and cap: "8 * length ws \<le> maxSupportedValueCount"
    and G: "\<forall>g\<in>set ws. length g = 8"
    and V: "\<forall>v\<in>set (concat ws). unat v < 2 ^ w"
    and d: "drop pos E = fst (encodeInt32_step [] ws i w) @ R"
  shows "\<exists>o'. Int32ToBytes (concat (drop i ws)) =
              o' @ Int32ToBytes (concat (drop (snd (encodeInt32_step [] ws i w)) ws)) \<and>
           decodeInt32_loop dst E spare pos w =
           decodeInt32_loop (dst @ o') E spare
             (pos + length (fst (encodeInt32_step [] ws i w))) w"
proof -
  define v where "v = ws ! i ! 0"
  define p where "p = broadcast8x4 v"
  define j0 where "j0 = words_same ws p i"
  have j0: "i \<le> j0" "j0 \<le> length ws"
    using words_same_ge [of i ws p] words_same_le [of i ws p] i by (simp_all add: j0_def)
  have p0: "p ! 0 = v" by (simp add: p_def broadcast8x4_def)
  have "ws ! i \<in> set ws" using i by simp
  moreover have "v \<in> set (ws ! i)" using G i by (simp add: v_def)
  ultimately have "v \<in> set (concat ws)" by auto
  then have vw: "unat v < 2 ^ w" using V by blast
  show ?thesis
  proof (cases "i < j0")
    case True
    define c where "c = 8 * (j0 - i)"
    have s: "encodeInt32_step [] ws i w = (appendRunLengthInt32 [] c v w, j0)"
      using True
      by (simp add: encodeInt32_step_def Let_def v_def [symmetric] p_def [symmetric]
          j0_def [symmetric] c_def p0)
    have c: "c \<le> maxSupportedValueCount" using cap j0 by (simp add: c_def)
    have "take (j0 - i) (drop i ws) = replicate (j0 - i) p"
      unfolding j0_def using i by (intro words_same_run) simp
    then have o: "concat (take (j0 - i) (drop i ws)) = replicate c v"
      by (simp add: p_def broadcast8x4_replicate concat_replicate_groups c_def)
    have "decodeInt32_loop dst E spare pos w =
          decodeInt32_loop (dst @ Int32ToBytes (replicate c v)) E spare
            (pos + length (appendRunLengthInt32 [] c v w)) w"
      using d by (intro decodeInt32_RLE_step [OF w c vw]) (simp add: s)
    then show ?thesis
      using concat_split_at [OF j0(1), of ws]
      by (intro exI [of _ "Int32ToBytes (replicate c v)"])
        (simp add: s o Int32ToBytes_append [symmetric])
  next
    case False
    define j where "j = Suc (j0 + encodeInt32IndexEqual8Contiguous (drop (Suc j0) ws))"
    define gs where "gs = take (j - i) (drop i ws)"
    have "encodeInt32IndexEqual8Contiguous (drop (Suc j0) ws) \<le> length (drop (Suc j0) ws)"
      unfolding encodeInt32IndexEqual8Contiguous_def by (rule length_takeWhile_le)
    then have j: "i < j" "j \<le> length ws"
      using j0 False i by (simp_all add: j_def)
    have s: "encodeInt32_step [] ws i w = (appendBitPackedInt32 [] gs w, j)"
      using False
      by (simp add: encodeInt32_step_def Let_def v_def [symmetric] p_def [symmetric]
          j0_def [symmetric] j_def gs_def)
    have sub: "set gs \<subseteq> set ws"
      unfolding gs_def by (meson set_take_subset set_drop_subset subset_trans)
    have lg: "length gs \<le> maxSupportedValueCount" using cap j by (simp add: gs_def)
    have G': "\<forall>g\<in>set gs. length g = 8" using G sub by auto
    have V': "\<forall>v\<in>set (concat gs). unat v < 2 ^ w" using V sub by auto
    have "decodeInt32_loop dst E spare pos w =
          decodeInt32_loop (dst @ Int32ToBytes (concat gs)) E spare
            (pos + length (appendBitPackedInt32 [] gs w)) w"
      using d by (intro decodeInt32_bitpacked_step [OF lg G' V']) (simp add: s)
    then show ?thesis
      using concat_split_at [of i j ws] j(1)
      by (intro exI [of _ "Int32ToBytes (concat gs)"])
        (simp add: s gs_def Int32ToBytes_append [symmetric])
  qed
qed

lemma encodeInt32_words_decodes:
  assumes w: "w \<le> 32"
    and cap: "8 * length ws \<le> maxSupportedValueCount"
    and G: "\<forall>g\<in>set ws. length g = 8"
    and V: "\<forall>v\<in>set (concat ws). unat v < 2 ^ w"
    and d: "drop pos E = encodeInt32_words [] ws i w @ R"
  shows "decodeInt32_loop dst E spare pos w =
         decodeInt32_loop (dst @ Int32ToBytes (concat (drop i ws))) E spare
           (pos + length (encodeInt32_words [] ws i w)) w"
proof (rule run_loop_decodes [where loop = "\<lambda>dst i. encodeInt32_words dst ws i w"
      and step = "\<lambda>dst i. encodeInt32_step dst ws i w" and n = "length ws"
      and D = "\<lambda>dst pos. decodeInt32_loop dst E spare pos w"
      and out = "\<lambda>i. Int32ToBytes (concat (drop i ws))" and E = E and R = R])
  show "encodeInt32_words dst ws i w =
      (if i < length ws
       then encodeInt32_words (fst (encodeInt32_step dst ws i w)) ws (snd (encodeInt32_step dst ws i w)) w
       else dst)" for dst i
    by (rule encodeInt32_words.simps)
  show "encodeInt32_step dst ws i w =
      (dst @ fst (encodeInt32_step [] ws i w), snd (encodeInt32_step [] ws i w))" for dst i
    by (rule encodeInt32_step_append)
  show "i < snd (encodeInt32_step [] ws i w)" for i
    by (rule encodeInt32_step_advances)
  show "\<exists>o'. Int32ToBytes (concat (drop i ws)) =
              o' @ Int32ToBytes (concat (drop (snd (encodeInt32_step [] ws i w)) ws)) \<and>
           decodeInt32_loop d E spare pos w =
           decodeInt32_loop (d @ o') E spare (pos + length (fst (encodeInt32_step [] ws i w))) w"
    if "i < length ws" and "drop pos E = fst (encodeInt32_step [] ws i w) @ R" for i d pos R
    using that by (intro encodeInt32_step_decodes [OF _ w cap G V])
  show "Int32ToBytes (concat (drop i ws)) = []" if "length ws \<le> i" for i
    using that by (simp add: Int32ToBytes_def)
  show "drop pos E = encodeInt32_words [] ws i w @ R" by (rule d)
qed

lemma encodeInt32_tail_loop:
  "encodeInt32_tail dst xs i w =
      (if i < length xs
       then encodeInt32_tail
              (fst (appendRunLengthInt32 dst (same_run xs i (i + 1) - i) (xs ! i) w, same_run xs i (i + 1)))
              xs
              (snd (appendRunLengthInt32 dst (same_run xs i (i + 1) - i) (xs ! i) w, same_run xs i (i + 1)))
              w
       else dst)"
  by (subst encodeInt32_tail.simps) (simp add: Let_def)

lemma encodeInt32_tail_step_append:
  "(appendRunLengthInt32 dst (same_run xs i (i + 1) - i) (xs ! i) w, same_run xs i (i + 1)) =
      (dst @ fst (appendRunLengthInt32 [] (same_run xs i (i + 1) - i) (xs ! i) w, same_run xs i (i + 1)),
       snd (appendRunLengthInt32 [] (same_run xs i (i + 1) - i) (xs ! i) w, same_run xs i (i + 1)))"
  by (simp add: appendRunLengthInt32_def)

lemma encodeInt32_tail_step_advances:
  "i < snd (appendRunLengthInt32 [] (same_run xs i (i + 1) - i) (xs ! i) w, same_run xs i (i + 1))"
  using same_run_ge [of "i + 1" xs i] by simp

lemma encodeInt32_tail_decodes:
  assumes w: "w \<le> 32"
    and cap: "length xs \<le> maxSupportedValueCount"
    and V: "\<forall>x\<in>set xs. unat x < 2 ^ w"
    and d: "drop pos E = encodeInt32_tail [] xs i w @ R"
  shows "decodeInt32_loop dst E spare pos w =
         decodeInt32_loop (dst @ Int32ToBytes (drop i xs)) E spare
           (pos + length (encodeInt32_tail [] xs i w)) w"
proof (rule run_loop_decodes [where loop = "\<lambda>dst i. encodeInt32_tail dst xs i w"
      and step = "\<lambda>dst i. (appendRunLengthInt32 dst (same_run xs i (i + 1) - i) (xs ! i) w,
                            same_run xs i (i + 1))"
      and n = "length xs" and D = "\<lambda>dst pos. decodeInt32_loop dst E spare pos w"
      and out = "\<lambda>i. Int32ToBytes (drop i xs)" and E = E and R = R])
  show "encodeInt32_tail dst xs i w =
      (if i < length xs
       then encodeInt32_tail
              (fst (appendRunLengthInt32 dst (same_run xs i (i + 1) - i) (xs ! i) w, same_run xs i (i + 1)))
              xs
              (snd (appendRunLengthInt32 dst (same_run xs i (i + 1) - i) (xs ! i) w, same_run xs i (i + 1)))
              w
       else dst)" for dst i
    by (rule encodeInt32_tail_loop)
  show "(appendRunLengthInt32 dst (same_run xs i (i + 1) - i) (xs ! i) w, same_run xs i (i + 1)) =
      (dst @ fst (appendRunLengthInt32 [] (same_run xs i (i + 1) - i) (xs ! i) w, same_run xs i (i + 1)),
       snd (appendRunLengthInt32 [] (same_run xs i (i + 1) - i) (xs ! i) w, same_run xs i (i + 1)))"
    for dst i
    by (rule encodeInt32_tail_step_append)
  show "i < snd (appendRunLengthInt32 [] (same_run xs i (i + 1) - i) (xs ! i) w, same_run xs i (i + 1))"
    for i
    by (rule encodeInt32_tail_step_advances)
  show "\<exists>o'. Int32ToBytes (drop i xs) =
            o' @ Int32ToBytes
                   (drop (snd (appendRunLengthInt32 [] (same_run xs i (i + 1) - i) (xs ! i) w,
                               same_run xs i (i + 1))) xs) \<and>
           decodeInt32_loop d E spare pos w =
           decodeInt32_loop (d @ o') E spare
             (pos + length (fst (appendRunLengthInt32 [] (same_run xs i (i + 1) - i) (xs ! i) w,
                                 same_run xs i (i + 1)))) w"
    if i: "i < length xs"
      and dr: "drop pos E =
        fst (appendRunLengthInt32 [] (same_run xs i (i + 1) - i) (xs ! i) w, same_run xs i (i + 1)) @ R"
    for i d pos R
  proof -
    define j where "j = same_run xs i (Suc i)"
    have j: "i < j" "j \<le> length xs"
      using same_run_ge [of "Suc i" xs i] same_run_le [of "Suc i" xs i] i by (simp_all add: j_def)
    have c: "j - i \<le> maxSupportedValueCount" using cap j by simp
    have vw: "unat (xs ! i) < 2 ^ w" using V i by simp
    have o: "take (j - i) (drop i xs) = replicate (j - i) (xs ! i)"
      unfolding j_def using same_run_run [OF i] by simp
    have "decodeInt32_loop d E spare pos w =
          decodeInt32_loop (d @ Int32ToBytes (replicate (j - i) (xs ! i))) E spare
            (pos + length (appendRunLengthInt32 [] (j - i) (xs ! i) w)) w"
      using dr by (intro decodeInt32_RLE_step [OF w c vw]) (simp add: j_def)
    then show ?thesis
      using split_at [of i j xs] j(1)
      by (intro exI [of _ "Int32ToBytes (replicate (j - i) (xs ! i))"])
        (simp add: o j_def [symmetric] Int32ToBytes_append [symmetric])
  qed
  show "Int32ToBytes (drop i xs) = []" if "length xs \<le> i" for i
    using that by (simp add: Int32ToBytes_def)
  show "drop pos E = encodeInt32_tail [] xs i w @ R" by (rule d)
qed

lemma encodeInt32_tail_append:
  "encodeInt32_tail dst xs i w = dst @ encodeInt32_tail [] xs i w"
  by (rule run_loop_append [where loop = "\<lambda>dst i. encodeInt32_tail dst xs i w"
        and step = "\<lambda>dst i. (appendRunLengthInt32 dst (same_run xs i (i + 1) - i) (xs ! i) w,
                              same_run xs i (i + 1))"
        and n = "length xs"])
    (rule encodeInt32_tail_loop encodeInt32_tail_step_append encodeInt32_tail_step_advances)+

lemma decodeInt32_loop_end:
  "length E \<le> pos \<Longrightarrow> decodeInt32_loop dst E spare pos w = Returns dst None"
  by (subst decodeInt32_loop.simps) simp

lemma encodeInt32_then:
  assumes w: "w \<le> 32" and cap: "length xs \<le> maxSupportedValueCount"
    and V: "\<forall>x\<in>set xs. unat x < 2 ^ w"
  shows "snd (encodeInt32 [] xs w) = None"
    and "decodeInt32_loop [] (fst (encodeInt32 [] xs w) @ R) spare 0 w =
         decodeInt32_loop (Int32ToBytes xs) (fst (encodeInt32 [] xs w) @ R) spare
           (length (fst (encodeInt32 [] xs w))) w"
proof -
  have "snd (encodeInt32 [] xs w) = None \<and>
        decodeInt32_loop [] (fst (encodeInt32 [] xs w) @ R) spare 0 w =
        decodeInt32_loop (Int32ToBytes xs) (fst (encodeInt32 [] xs w) @ R) spare
          (length (fst (encodeInt32 [] xs w))) w"
  proof (cases "w = 0")
    case True
    define n where "n = length xs"
    have xs: "xs = replicate n 0" using V all_zero_values [of xs] by (simp add: True n_def)
    have n: "n \<le> maxSupportedValueCount" using cap by (simp add: n_def)
    define H where "H = PutUvarint (2 * n)"
    have e: "encodeInt32 [] (replicate n 0) 0 = (H, None)"
      by (simp add: encodeInt32_def isZero_Int32_zeros appendUvarint_def header_rle [OF n] H_def)
    have d: "drop 0 (H @ R) = PutUvarint (2 * n) @ R" by (simp add: H_def)
    have c64: "2 * n < 2 ^ 64" using cap_small [OF n] by simp
    note h = read_header [OF d c64, folded H_def]
    have r: "appendRepeat [] [0, 0, 0, 0] n = Int32ToBytes (replicate n 0)"
      by (subst appendRepeat_eq) (simp_all add: Int32ToBytes_replicate int32_bytes_def)
    have "decodeInt32_loop [] (H @ R) spare 0 0 =
          decodeInt32_loop (Int32ToBytes (replicate n 0)) (H @ R) spare (length H) 0"
      using h(1,3) n
      by (simp add: decodeInt32_loop.simps [of "[]" "H @ R" spare 0] h(2) [simplified] mode_bit
          Let_def ByteCount_def r)
    then have "snd (encodeInt32 [] (replicate n 0) 0) = None \<and>
        decodeInt32_loop [] (fst (encodeInt32 [] (replicate n 0) 0) @ R) spare 0 0 =
        decodeInt32_loop (Int32ToBytes (replicate n 0)) (fst (encodeInt32 [] (replicate n 0) 0) @ R)
          spare (length (fst (encodeInt32 [] (replicate n 0) 0))) 0"
      by (simp add: e)
    then show ?thesis unfolding True by (subst (1 2 3 4 5) xs)
  next
    case False
    define ws where "ws = words_of xs"
    define t where "t = length xs div 8 * 8"
    define Ew where "Ew = encodeInt32_words [] ws 0 w"
    define Et where "Et = encodeInt32_tail [] xs t w"
    define E where "E = Ew @ Et"
    have short: "length xs < 8 \<Longrightarrow> Ew = []"
      by (simp add: Ew_def ws_def encodeInt32_words.simps [of "[]" _ 0])
    have e0: "encodeInt32 [] xs w =
        (encodeInt32_tail (if 8 \<le> length xs then Ew else []) xs t w, None)"
      using w False by (simp add: encodeInt32_def Let_def Ew_def ws_def t_def)
    have "(if 8 \<le> length xs then Ew else []) = Ew" using short by simp
    then have e: "encodeInt32 [] xs w = (E, None)"
      using encodeInt32_tail_append [of Ew xs t w] by (simp add: e0 E_def Et_def)
    have capw: "8 * length ws \<le> maxSupportedValueCount"
      using cap by (simp add: ws_def)
    have G: "\<forall>g\<in>set ws. length g = 8" unfolding ws_def by (rule words_of_groups)
    have cw: "concat ws = take t xs" by (simp add: ws_def t_def concat_words_of)
    have V': "\<forall>v\<in>set (concat ws). unat v < 2 ^ w"
      using V by (auto simp: cw dest: in_set_takeD)
    have d1: "drop 0 (E @ R) = encodeInt32_words [] ws 0 w @ (Et @ R)" by (simp add: E_def Ew_def)
    have s1: "decodeInt32_loop [] (E @ R) spare 0 w =
              decodeInt32_loop (Int32ToBytes (concat ws)) (E @ R) spare (length Ew) w"
      using encodeInt32_words_decodes [OF w capw G V' d1, of "[]" spare] by (simp add: Ew_def)
    have d2: "drop (length Ew) (E @ R) = encodeInt32_tail [] xs t w @ R"
      by (simp add: E_def Et_def)
    have s2: "decodeInt32_loop (Int32ToBytes (concat ws)) (E @ R) spare (length Ew) w =
              decodeInt32_loop (Int32ToBytes (concat ws) @ Int32ToBytes (drop t xs)) (E @ R) spare
                (length E) w"
      using encodeInt32_tail_decodes [OF w cap V d2, of "Int32ToBytes (concat ws)" spare]
      by (simp add: E_def Et_def)
    have "decodeInt32_loop [] (E @ R) spare 0 w =
          decodeInt32_loop (Int32ToBytes (concat ws) @ Int32ToBytes (drop t xs)) (E @ R) spare
            (length E) w"
      by (simp only: s1 s2)
    then show ?thesis by (simp add: e cw Int32ToBytes_append [symmetric])
  qed
  then show "snd (encodeInt32 [] xs w) = None"
    and "decodeInt32_loop [] (fst (encodeInt32 [] xs w) @ R) spare 0 w =
         decodeInt32_loop (Int32ToBytes xs) (fst (encodeInt32 [] xs w) @ R) spare
           (length (fst (encodeInt32 [] xs w))) w"
    by simp_all
qed

lemma encodeInt32_roundtrip:
  assumes w: "w \<le> 32" and cap: "length xs \<le> maxSupportedValueCount"
    and V: "\<forall>x\<in>set xs. unat x < 2 ^ w"
  shows "snd (encodeInt32 [] xs w) = None \<and>
         decodeInt32 [] (fst (encodeInt32 [] xs w)) spare w = Returns (Int32ToBytes xs) None"
  using encodeInt32_then(1) [OF assms] encodeInt32_then(2) [OF assms, of "[]" spare] w
  by (simp add: decodeInt32_def decodeInt32_loop_end)

subsection \<open>Runs that the decoders refuse\<close>

lemma count_above_cap_step:
  assumes "i < length src" and "Uvarint (drop i src) = (u, n)" and "0 < n"
    and "maxSupportedValueCount < u div 2"
  shows "decodeBits_loop dst src i = (dst, Some CountTooLarge)"
    and "decodeBytes_loop dst src i bitWidth = (dst, Some CountTooLarge)"
    and "decodeInt32_loop dst src spare i bitWidth = Returns dst (Some CountTooLarge)"
  using assms
  by (simp_all add: decodeBits_loop.simps [of dst src i] decodeBytes_loop.simps [of dst src i]
      decodeInt32_loop.simps [of dst src spare i] Let_def)

lemma truncated_body_step:
  assumes "i < length src" and "Uvarint (drop i src) = (u, n)" and "0 < n"
    and "u div 2 \<le> maxSupportedValueCount"
  shows "u AND 1 \<noteq> 0 \<Longrightarrow> length src < i + nat n + u div 2 \<Longrightarrow>
            decodeBits_loop dst src i = (dst, Some TruncatedBody)"
    and "u AND 1 \<noteq> 0 \<Longrightarrow> length src < i + nat n + ByteCount (u div 2 * 8 * bitWidth) \<Longrightarrow>
            decodeBytes_loop dst src i bitWidth = (dst, Some TruncatedBody)"
    and "u AND 1 = 0 \<Longrightarrow> bitWidth \<noteq> 0 \<Longrightarrow> length src < i + nat n + 1 \<Longrightarrow>
            decodeBytes_loop dst src i bitWidth = (dst, Some TruncatedBody)"
    and "u AND 1 = 0 \<Longrightarrow> length src < i + nat n + ByteCount bitWidth \<Longrightarrow>
            decodeInt32_loop dst src spare i bitWidth = Returns dst (Some TruncatedBody)"
    and "u AND 1 = 0 \<Longrightarrow> length src = i + nat n \<Longrightarrow>
            decodeBits_loop dst src i = (dst @ replicate (ByteCount (u div 2)) 0, None)"
  using assms
  by (simp_all add: decodeBits_loop.simps [of dst src i] decodeBytes_loop.simps [of dst src i]
      decodeInt32_loop.simps [of dst src spare i]
      decodeBits_loop.simps [of _ src "i + nat n"] Let_def)

text \<open>A header that follows the encoding of a sequence.\<close>

lemma header_after:
  assumes "u < 2 ^ 64"
  shows "length E < length (E @ PutUvarint u @ rest)"
    and "Uvarint (drop (length E) (E @ PutUvarint u @ rest)) = (u, int (length (PutUvarint u)))"
    and "0 < int (length (PutUvarint u))"
  using PutUvarint_nonempty [of u] Uvarint_PutUvarint [OF assms, of rest] by simp_all

lemma decodeBytes_run_after:
  assumes w: "w \<le> 8" and cap: "length xs \<le> maxSupportedValueCount"
    and V: "\<forall>x\<in>set xs. unat x < 2 ^ w"
  shows "decodeBytes [] (fst (encodeBytes [] xs w) @ R) w =
         decodeBytes_loop xs (fst (encodeBytes [] xs w) @ R) (length (fst (encodeBytes [] xs w))) w"
  using encodeBytes_then(2) [OF assms, of R] w by (simp add: decodeBytes_def)

lemma decodeInt32_run_after:
  assumes w: "w \<le> 32" and cap: "length ys \<le> maxSupportedValueCount"
    and V: "\<forall>y\<in>set ys. unat y < 2 ^ w"
  shows "decodeInt32 [] (fst (encodeInt32 [] ys w) @ R) spare w =
         decodeInt32_loop (Int32ToBytes ys) (fst (encodeInt32 [] ys w) @ R) spare
           (length (fst (encodeInt32 [] ys w))) w"
  using encodeInt32_then(2) [OF assms, of R spare] w by (simp add: decodeInt32_def)

section \<open>Lemmas about the lookup\<close>

lemma ids_order:
  "id1 < id2" "id1 \<le> id2" "\<not> id2 < id1" "\<not> id2 \<le> id1"
  "id1 \<noteq> id2" "id2 \<noteq> id1" "id1 < id3" "id1 \<le> id3"
  "\<not> id3 < id1" "\<not> id3 \<le> id1" "id1 \<noteq> id3" "id3 \<noteq> id1"
  "id1 < id4" "id1 \<le> id4" "\<not> id4 < id1" "\<not> id4 \<le> id1"
  "id1 \<noteq> id4" "id4 \<noteq> id1" "id1 < id5" "id1 \<le> id5"
  "\<not> id5 < id1" "\<not> id5 \<le> id1" "id1 \<noteq> id5" "id5 \<noteq> id1"
  "id2 < id3" "id2 \<le> id3" "\<not> id3 < id2" "\<not> id3 \<le> id2"
  "id2 \<noteq> id3" "id3 \<noteq> id2" "id2 < id4" "id2 \<le> id4"
  "\<not> id4 < id2" "\<not> id4 \<le> id2" "id2 \<noteq> id4" "id4 \<noteq> id2"
  "id2 < id5" "id2 \<le> id5" "\<not> id5 < id2" "\<not> id5 \<le> id2"
  "id2 \<noteq> id5" "id5 \<noteq> id2" "id3 < id4" "id3 \<le> id4"
  "\<not> id4 < id3" "\<not> id4 \<le> id3" "id3 \<noteq> id4" "id4 \<noteq> id3"
  "id3 < id5" "id3 \<le> id5" "\<not> id5 < id3" "\<not> id5 \<le> id3"
  "id3 \<noteq> id5" "id5 \<noteq> id3" "id4 < id5" "id4 \<le> id5"
  "\<not> id5 < id4" "\<not> id5 \<le> id4" "id4 \<noteq> id5" "id5 \<noteq> id4"
  by (simp_all add: id1_def id2_def id3_def id4_def id5_def)

lemma match_from_shift:
  "match_from vs t y = map_option (\<lambda>k. y + k) (match_from vs t 0)"
proof (induction vs arbitrary: y)
  case Nil
  show ?case by simp
next
  case (Cons v vs)
  show ?case
    using Cons [of "y + 1"] Cons [of 1]
    by (simp add: option.map_comp comp_def)
qed

lemma match_from_append:
  "match_from (as @ bs) t y =
     (case match_from as t y of Some k \<Rightarrow> Some k | None \<Rightarrow> match_from bs t (y + length as))"
  by (induction as arbitrary: y) (simp_all split: option.splits)

lemma match_from_None: "match_from vs t y = None \<longleftrightarrow> t \<notin> set vs"
  by (induction vs arbitrary: y) auto

lemma match_from_first:
  "y < length vs \<Longrightarrow> vs ! y = t \<Longrightarrow> \<forall>k<y. vs ! k \<noteq> t \<Longrightarrow> match_from vs t n = Some (n + y)"
proof (induction vs arbitrary: y n)
  case Nil
  then show ?case by simp
next
  case (Cons v vs)
  show ?case
  proof (cases y)
    case 0
    with Cons.prems show ?thesis by simp
  next
    case (Suc m)
    have "v \<noteq> t" using Cons.prems(3) Suc by auto
    moreover have "match_from vs t (n + 1) = Some (n + 1 + m)"
      using Cons.prems Suc by (intro Cons.IH) auto
    ultimately show ?thesis using Suc by simp
  qed
qed

lemma scanValues_clean:
  "reads_clean rs \<Longrightarrow>
   scanValues r rs t =
     (case match_from (concat (map fst rs)) t 0 of Some y \<Rightarrow> r + int y | None \<Rightarrow> NotFound)"
proof (induction rs arbitrary: r)
  case Nil
  show ?case by simp
next
  case (Cons a rs)
  obtain vs e where a: "a = (vs, e)" by (cases a)
  show ?case
  proof (cases "match_from vs t 0")
    case (Some y)
    then show ?thesis by (simp add: a match_from_append)
  next
    case None
    show ?thesis
    proof (cases rs)
      case Nil
      then show ?thesis using None by (simp add: a)
    next
      case (Cons b rs')
      then have e: "e = None" and c: "reads_clean rs"
        using Cons.prems by (simp_all add: reads_clean_def a)
      show ?thesis
        using Cons.IH [OF c, of "r + int (length vs)"] None
        by (simp add: a e match_from_append match_from_shift [of _ t "length vs"]
            split: option.splits)
    qed
  qed
qed

lemma scanValues_absent: "t \<notin> set (concat (map fst rs)) \<Longrightarrow> scanValues r rs t = NotFound"
proof (induction rs arbitrary: r)
  case Nil
  show ?case by simp
next
  case (Cons a rs)
  obtain vs e where a: "a = (vs, e)" by (cases a)
  have "match_from vs t 0 = None" using Cons.prems by (simp add: a match_from_None)
  then show ?case using Cons by (simp add: a)
qed

lemma trackRows_bloom_block:
  "trackRows \<lparr>rgs = [], startRowNum = []\<rparr> 0 [single_rg id1, single_rg id2, single_rg id3] =
     \<lparr>rgs = [single_rg id1, single_rg id2, single_rg id3], startRowNum = [0, 1, 2]\<rparr>"
  by (simp add: single_rg_def)

section \<open>The claims\<close>

subsection \<open>Round trip (C1)\<close>

text \<open>
  Claim C1, as stated, fails for long sequences. A constant input of \<open>16 * 2^20 + 8\<close> zeros
  at bit width 1 is encoded as one run-length run of that count; the decoder refuses every
  run of more than \<open>maxSupportedValueCount = 16 * 2^20\<close> values.
\<close>

theorem long_constant_input_not_decoded:
  "decodeBytes [] (fst (encodeBytes [] (replicate 16777224 0) 1)) 1 = ([], Some CountTooLarge)"
proof -
  define H where "H = PutUvarint 33554448"
  have e: "encodeBytes [] (replicate 16777224 0) 1 = (H @ [0], None)"
    by (simp add: encodeBytes_constant appendRunLengthBytes_def uint64_def H_def)
  have u: "Uvarint (H @ [0]) = (33554448, int (length H))"
    unfolding H_def by (rule Uvarint_PutUvarint) simp
  have n: "H \<noteq> []" unfolding H_def by (rule PutUvarint_nonempty)
  show ?thesis
    unfolding e fst_conv
    using n
    by (simp add: decodeBytes_def decodeBytes_loop.simps [of "[]" "H @ [0]" 0] u Let_def
        maxSupportedValueCount_def)
qed

text \<open>
  Claim C1, amended. For every bit width and every sequence of at most \<open>16 * 2^20\<close>
  values, each below \<open>2^w\<close>, encoding succeeds and decoding the encoding at the same width
  returns exactly the sequence: for the byte-level codec at widths 0 to 8, and for the
  int32 codec at widths 0 to 32, whose decoder returns the little-endian bytes of the
  values, whatever lies in the spare capacity of its input. The empty sequence is one
  such sequence.
\<close>

theorem codec_roundtrip:
  assumes "length xs \<le> maxSupportedValueCount" and "length ys \<le> maxSupportedValueCount"
  shows "(w \<le> 8 \<and> (\<forall>x\<in>set xs. unat x < 2 ^ w) \<longrightarrow>
            snd (encodeBytes [] xs w) = None \<and>
            decodeBytes [] (fst (encodeBytes [] xs w)) w = (xs, None)) \<and>
         (w \<le> 32 \<and> (\<forall>y\<in>set ys. unat y < 2 ^ w) \<longrightarrow>
            snd (encodeInt32 [] ys w) = None \<and>
            decodeInt32 [] (fst (encodeInt32 [] ys w)) spare w = Returns (Int32ToBytes ys) None)"
  using encodeBytes_roundtrip [OF _ assms(1), of w] encodeInt32_roundtrip [OF _ assms(2), of w spare]
  by blast

theorem codec_roundtrip_witness:
  "decodeBytes [] (fst (encodeBytes [] [1, 0, 1, 0, 1, 0, 1, 0, 3, 3] 2)) 2 =
     ([1, 0, 1, 0, 1, 0, 1, 0, 3, 3], None) \<and>
   decodeInt32 [] (fst (encodeInt32 [] [5, 300] 9)) [7] 9 = Returns (Int32ToBytes [5, 300]) None \<and>
   decodeBytes [] (fst (encodeBytes [] [] 0)) 0 = ([], None)"
  using codec_roundtrip [of "[1, 0, 1, 0, 1, 0, 1, 0, 3, 3]" "[5, 300]" 2 "[7]"]
    codec_roundtrip [of "[]" "[5, 300]" 9 "[7]"]
    codec_roundtrip [of "[]" "[]" 0 "[]"]
  by (simp add: maxSupportedValueCount_def)

subsection \<open>The search over the row groups (C2)\<close>

text \<open>
  Claim C2. The claim is that the lookup returns the row of every id of a block with
  sorted, unique ids. The block \<open>bloom_block\<close> has three row groups that hold \<open>id1\<close>,
  \<open>id2\<close> and \<open>id3\<close>, each with a bloom filter of its column chunk. The lookup of \<open>id1\<close>
  (global row 0) probes row group 1, whose bloom filter answers no; \<open>findTraceByID\<close>
  returns \<open>NotFound\<close> before it compares the id with the bounds, and \<open>binarySearch\<close> goes
  on to the right of row group 1, where the id is not: the row groups probed are 1 and 2,
  and the lookup reports a miss.
\<close>

theorem lookup_misses_present_id:
  "binarySearch \<lparr>rgs = [single_rg id1, single_rg id2, single_rg id3], startRowNum = [0, 1, 2]\<rparr>
     0 2 id1 = - 1 \<and>
   probed \<lparr>rgs = [single_rg id1, single_rg id2, single_rg id3], startRowNum = [0, 1, 2]\<rparr>
     0 2 id1 = [1, 2] \<and>
   FindTraceByID bloom_block id1 = Inr None"
  by (simp add: FindTraceByID_def bloom_block_def checkBloom_def trackRows_bloom_block Let_def
      binarySearch.simps [of _ 0 2] binarySearch.simps [of _ 2 2] binarySearch.simps [of _ 3 2]
      probed.simps [of _ 0 2] probed.simps [of _ 2 2] probed.simps [of _ 3 2]
      findTraceByID_def single_rg_def ids_order NotFound_def SearchPrevious_def)

subsection \<open>Failures of the lookup (C3)\<close>

text \<open>
  Claim C3. The claim is that every failure is returned as an error. In \<open>failing_block\<close>
  the page holds \<open>id1\<close>, \<open>id2\<close> and \<open>id3\<close> and the first read of its values fails; the
  lookup of \<open>id2\<close> returns no trace and no error, as for a miss. A failure of the
  block-level bloom is returned as an error.
\<close>

theorem read_failure_reported_as_miss:
  "FindTraceByID failing_block id2 = Inr None \<and>
   FindTraceByID (failing_block\<lparr>bloom_shard := RetrieveFails\<rparr>) id2 = Inl BloomRetrieveFailed \<and>
   FindTraceByID (failing_block\<lparr>bloom_shard := ParseFails\<rparr>) id2 = Inl BloomParseFailed"
  by (simp add: FindTraceByID_def failing_block_def failing_page_def checkBloom_def Let_def
      binarySearch.simps [of _ 0 0] binarySearch.simps [of _ 1 0]
      findTraceByID_def ids_order NotFound_def SearchPrevious_def)

subsection \<open>Malformed input (C4)\<close>

text \<open>
  Claim C4. The claim is that no decoder panics on any input. \<open>decodeInt32\<close> does: the
  one-byte input \<open>03\<close> (a slice of capacity 1) is the header of a bit-packed run of one
  group; at bit width 1 the run needs one more byte, and \<open>src[i : i+length]\<close> is taken
  without the check \<open>j > len(src)\<close> that \<open>decodeBytes\<close> makes.
\<close>

theorem decodeInt32_truncated_bitpacked_panics: "decodeInt32 [] [3] [] 1 = Panics"
  by (simp add: decodeInt32_def decodeInt32_loop.simps [of "[]" "[3]" "[]" 0] Uvarint_single_3
      maxSupportedValueCount_def Let_def)

subsection \<open>Truncated runs (C5)\<close>

text \<open>
  Claim C5, as stated, fails for the boolean decoder: a run-length run whose value byte is
  missing is not an error for \<open>decodeBits\<close>. The input \<open>10\<close> is the header of a run-length
  run of 8 bits with no value byte; it decodes to one zero byte.
\<close>

theorem decodeBits_missing_value_no_error: "decodeBits [] [0x10] = ([0], None)"
  by (simp add: decodeBits_def decodeBits_loop.simps [of "[]" "[0x10]" 0]
      decodeBits_loop.simps [of _ "[0x10]" "Suc 0"] Uvarint_single_16
      maxSupportedValueCount_def Let_def ByteCount_def)

text \<open>
  Claim C5, amended. When a decoder reaches, with the buffer \<open>dst\<close>, a run within the cap
  whose body is incomplete, it returns the TruncatedBody error and the buffer \<open>dst\<close>, that
  is, what was decoded before that run: \<open>decodeBits\<close> for a bit-packed run, \<open>decodeBytes\<close>
  for a bit-packed run and for a run-length run (at a bit width other than 0),
  \<open>decodeInt32\<close> for a run-length run. A run-length run of \<open>decodeBits\<close> whose value
  byte is missing at the end of the input is decoded as a run of zero bytes, without error.
  In particular, when the encoding of a sequence is followed by such a truncated run,
  \<open>decodeBytes\<close> and \<open>decodeInt32\<close> return the sequence together with the error.
\<close>

theorem truncated_body_reported:
  "(i < length src \<and> Uvarint (drop i src) = (u, n) \<and> 0 < n \<and>
    u div 2 \<le> maxSupportedValueCount \<longrightarrow>
      (u AND 1 \<noteq> 0 \<and> length src < i + nat n + u div 2 \<longrightarrow>
         decodeBits_loop dst src i = (dst, Some TruncatedBody)) \<and>
      (u AND 1 \<noteq> 0 \<and> length src < i + nat n + ByteCount (u div 2 * 8 * w) \<longrightarrow>
         decodeBytes_loop dst src i w = (dst, Some TruncatedBody)) \<and>
      (u AND 1 = 0 \<and> w \<noteq> 0 \<and> length src < i + nat n + 1 \<longrightarrow>
         decodeBytes_loop dst src i w = (dst, Some TruncatedBody)) \<and>
      (u AND 1 = 0 \<and> length src < i + nat n + ByteCount w \<longrightarrow>
         decodeInt32_loop dst src spare i w = Returns dst (Some TruncatedBody)) \<and>
      (u AND 1 = 0 \<and> length src = i + nat n \<longrightarrow>
         decodeBits_loop dst src i = (dst @ replicate (ByteCount (u div 2)) 0, None))) \<and>
   (1 \<le> w \<and> w \<le> 8 \<and> length xs \<le> maxSupportedValueCount \<and>
    (\<forall>x\<in>set xs. unat x < 2 ^ w) \<and> c \<le> maxSupportedValueCount \<longrightarrow>
      decodeBytes [] (fst (encodeBytes [] xs w) @ PutUvarint (2 * c)) w =
        (xs, Some TruncatedBody)) \<and>
   (w \<le> 8 \<and> length xs \<le> maxSupportedValueCount \<and>
    (\<forall>x\<in>set xs. unat x < 2 ^ w) \<and> c \<le> maxSupportedValueCount \<and>
    length payload < c * w \<longrightarrow>
      decodeBytes [] (fst (encodeBytes [] xs w) @ PutUvarint (2 * c + 1) @ payload) w =
        (xs, Some TruncatedBody)) \<and>
   (w \<le> 32 \<and> length ys \<le> maxSupportedValueCount \<and>
    (\<forall>y\<in>set ys. unat y < 2 ^ w) \<and> c \<le> maxSupportedValueCount \<and>
    length payload < ByteCount w \<longrightarrow>
      decodeInt32 [] (fst (encodeInt32 [] ys w) @ PutUvarint (2 * c) @ payload) spare w =
        Returns (Int32ToBytes ys) (Some TruncatedBody))"
proof -
  have e1: "decodeBytes [] (fst (encodeBytes [] xs w) @ PutUvarint (2 * c)) w =
        (xs, Some TruncatedBody)"
    if "1 \<le> w" and "w \<le> 8" and "length xs \<le> maxSupportedValueCount"
      and "\<forall>x\<in>set xs. unat x < 2 ^ w" and "c \<le> maxSupportedValueCount"
  proof -
    have c64: "2 * c < 2 ^ 64" using cap_small [OF that(5)] by simp
    note h = header_after(1,2) [OF c64, of "fst (encodeBytes [] xs w)" "[]", simplified]
      header_after(3) [OF c64]
    show ?thesis
      unfolding decodeBytes_run_after [OF that(2,3,4)]
      using truncated_body_step(3) [of "length (fst (encodeBytes [] xs w))"
          "fst (encodeBytes [] xs w) @ PutUvarint (2 * c)" "2 * c" _ w xs] h that(1,5)
      by (simp add: mode_bit)
  qed
  have e2: "decodeBytes [] (fst (encodeBytes [] xs w) @ PutUvarint (2 * c + 1) @ payload) w =
        (xs, Some TruncatedBody)"
    if "w \<le> 8" and "length xs \<le> maxSupportedValueCount"
      and "\<forall>x\<in>set xs. unat x < 2 ^ w" and "c \<le> maxSupportedValueCount"
      and "length payload < c * w"
  proof -
    have c64: "2 * c + 1 < 2 ^ 64" using cap_small [OF that(4)] by simp
    note h = header_after(1,2) [OF c64, of "fst (encodeBytes [] xs w)" payload]
      header_after(3) [OF c64]
    show ?thesis
      unfolding decodeBytes_run_after [OF that(1,2,3)]
      using truncated_body_step(2) [OF h(1,2,3), of w xs] that(4,5)
      by (simp add: mode_bit)
  qed
  have e3: "decodeInt32 [] (fst (encodeInt32 [] ys w) @ PutUvarint (2 * c) @ payload) spare w =
        Returns (Int32ToBytes ys) (Some TruncatedBody)"
    if "w \<le> 32" and "length ys \<le> maxSupportedValueCount"
      and "\<forall>y\<in>set ys. unat y < 2 ^ w" and "c \<le> maxSupportedValueCount"
      and "length payload < ByteCount w"
  proof -
    have c64: "2 * c < 2 ^ 64" using cap_small [OF that(4)] by simp
    note h = header_after(1,2) [OF c64, of "fst (encodeInt32 [] ys w)" payload]
      header_after(3) [OF c64]
    show ?thesis
      unfolding decodeInt32_run_after [OF that(1,2,3)]
      using truncated_body_step(4) [OF h(1,2,3), of w "Int32ToBytes ys" spare] that(4,5)
      by (simp add: mode_bit)
  qed
  have s: "i < length src \<and> Uvarint (drop i src) = (u, n) \<and> 0 < n \<and>
    u div 2 \<le> maxSupportedValueCount \<longrightarrow>
      (u AND 1 \<noteq> 0 \<and> length src < i + nat n + u div 2 \<longrightarrow>
         decodeBits_loop dst src i = (dst, Some TruncatedBody)) \<and>
      (u AND 1 \<noteq> 0 \<and> length src < i + nat n + ByteCount (u div 2 * 8 * w) \<longrightarrow>
         decodeBytes_loop dst src i w = (dst, Some TruncatedBody)) \<and>
      (u AND 1 = 0 \<and> w \<noteq> 0 \<and> length src < i + nat n + 1 \<longrightarrow>
         decodeBytes_loop dst src i w = (dst, Some TruncatedBody)) \<and>
      (u AND 1 = 0 \<and> length src < i + nat n + ByteCount w \<longrightarrow>
         decodeInt32_loop dst src spare i w = Returns dst (Some TruncatedBody)) \<and>
      (u AND 1 = 0 \<and> length src = i + nat n \<longrightarrow>
         decodeBits_loop dst src i = (dst @ replicate (ByteCount (u div 2)) 0, None))"
  proof (intro impI, elim conjE)
    assume h: "i < length src" "Uvarint (drop i src) = (u, n)" "0 < n"
      "u div 2 \<le> maxSupportedValueCount"
    note t = truncated_body_step [OF h]
    show "(u AND 1 \<noteq> 0 \<and> length src < i + nat n + u div 2 \<longrightarrow>
         decodeBits_loop dst src i = (dst, Some TruncatedBody)) \<and>
      (u AND 1 \<noteq> 0 \<and> length src < i + nat n + ByteCount (u div 2 * 8 * w) \<longrightarrow>
         decodeBytes_loop dst src i w = (dst, Some TruncatedBody)) \<and>
      (u AND 1 = 0 \<and> w \<noteq> 0 \<and> length src < i + nat n + 1 \<longrightarrow>
         decodeBytes_loop dst src i w = (dst, Some TruncatedBody)) \<and>
      (u AND 1 = 0 \<and> length src < i + nat n + ByteCount w \<longrightarrow>
         decodeInt32_loop dst src spare i w = Returns dst (Some TruncatedBody)) \<and>
      (u AND 1 = 0 \<and> length src = i + nat n \<longrightarrow>
         decodeBits_loop dst src i = (dst @ replicate (ByteCount (u div 2)) 0, None))"
      using t(1) [of dst] t(2) [of w dst] t(3) [of w dst] t(4) [of w dst spare] t(5) [of dst]
      by (intro conjI impI; elim conjE) assumption+
  qed
  show ?thesis
    by (intro conjI impI s [rule_format]; (elim conjE)?; (rule e1 e2 e3; assumption)?)
qed

text \<open>
  The runs \<open>05 AA\<close> (bit-packed, 2 bytes announced, 1 present), \<open>03 55\<close> (bit-packed
  levels of width 2), \<open>10\<close> (run-length, no value) and \<open>10 01\<close> (run-length of width 9,
  one value byte of two), and truncated runs after the encodings of \<open>1 0 1\<close> and \<open>5 6\<close>.
\<close>

theorem truncated_body_reported_witness:
  "decodeBits [] [3, 0x55, 5, 0xAA] = ([0x55], Some TruncatedBody) \<and>
   decodeBytes [] [3, 0x55] 2 = ([], Some TruncatedBody) \<and>
   decodeBytes [] [0x10] 1 = ([], Some TruncatedBody) \<and>
   decodeInt32 [] [0x10, 1] [] 9 = Returns [] (Some TruncatedBody) \<and>
   decodeBits_loop [7] [0x10] 0 = ([7, 0], None) \<and>
   decodeBytes [] (fst (encodeBytes [] [1, 0, 1] 1) @ PutUvarint 16) 1 =
     ([1, 0, 1], Some TruncatedBody) \<and>
   decodeBytes [] (fst (encodeBytes [] [1, 0, 1] 1) @ PutUvarint 17 @ [0xFF]) 1 =
     ([1, 0, 1], Some TruncatedBody) \<and>
   decodeInt32 [] (fst (encodeInt32 [] [5, 6] 9) @ PutUvarint 16 @ [1]) [] 9 =
     Returns (Int32ToBytes [5, 6]) (Some TruncatedBody)"
proof -
  have a: "decodeBits_loop [0x55] [3, 0x55, 5, 0xAA] 2 = ([0x55], Some TruncatedBody)"
    using truncated_body_reported [of 2 "[3, 0x55, 5, 0xAA]" 5 1 "[0x55]" 0 "[]", THEN conjunct1]
    by (simp add: Uvarint_single_5 maxSupportedValueCount_def)
  have b: "decodeBits [] [3, 0x55, 5, 0xAA] =
      decodeBits_loop [0x55] [3, 0x55, 5, 0xAA] (Suc (Suc 0))"
    by (simp add: decodeBits_def decodeBits_loop.simps [of "[]" "[3, 0x55, 5, 0xAA]" 0]
        Uvarint_single_3 maxSupportedValueCount_def Let_def)
  have s1: "decodeBits [] [3, 0x55, 5, 0xAA] = ([0x55], Some TruncatedBody)"
    using a by (simp add: b numeral_2_eq_2)
  have s2: "decodeBytes [] [3, 0x55] 2 = ([], Some TruncatedBody)"
    using truncated_body_reported [of 0 "[3, 0x55]" 3 1 "[]" 2 "[]", THEN conjunct1]
    by (simp add: Uvarint_single_3 maxSupportedValueCount_def ByteCount_def decodeBytes_def)
  have s3: "decodeBytes [] [0x10] 1 = ([], Some TruncatedBody)"
    using truncated_body_reported [of 0 "[0x10]" 16 1 "[]" 1 "[]", THEN conjunct1]
    by (simp add: Uvarint_single_16 maxSupportedValueCount_def ByteCount_def decodeBytes_def)
  have s4: "decodeInt32 [] [0x10, 1] [] 9 = Returns [] (Some TruncatedBody)"
    using truncated_body_reported [of 0 "[0x10, 1]" 16 1 "[]" 9 "[]", THEN conjunct1]
    by (simp add: Uvarint_single_16 maxSupportedValueCount_def ByteCount_def decodeInt32_def)
  have s5: "decodeBits_loop [7] [0x10] 0 = ([7, 0], None)"
    using truncated_body_reported [of 0 "[0x10]" 16 1 "[7]" 0 "[]", THEN conjunct1]
    by (simp add: Uvarint_single_16 maxSupportedValueCount_def ByteCount_def)
  have e1: "decodeBytes [] (fst (encodeBytes [] [1, 0, 1] 1) @ PutUvarint 16) 1 =
     ([1, 0, 1], Some TruncatedBody)"
    using truncated_body_reported [where w = 1 and xs = "[1, 0, 1]" and c = 8,
        THEN conjunct2, THEN conjunct1]
    by (simp add: maxSupportedValueCount_def)
  have e2: "decodeBytes [] (fst (encodeBytes [] [1, 0, 1] 1) @ PutUvarint 17 @ [0xFF]) 1 =
     ([1, 0, 1], Some TruncatedBody)"
    using truncated_body_reported [where w = 1 and xs = "[1, 0, 1]" and c = 8
        and payload = "[0xFF]", THEN conjunct2, THEN conjunct2, THEN conjunct1]
    by (simp add: maxSupportedValueCount_def)
  have e3: "decodeInt32 [] (fst (encodeInt32 [] [5, 6] 9) @ PutUvarint 16 @ [1]) [] 9 =
     Returns (Int32ToBytes [5, 6]) (Some TruncatedBody)"
    using truncated_body_reported [where w = 9 and ys = "[5, 6]" and c = 8
        and payload = "[1]" and spare = "[]", THEN conjunct2, THEN conjunct2, THEN conjunct2]
    by (simp add: maxSupportedValueCount_def ByteCount_def)
  show ?thesis
    using s1 s2 s3 s4 s5 e1 e2 e3 by simp
qed

subsection \<open>The cap on the count of a run (C6)\<close>

text \<open>
  Claim C6. When a decoder reaches, with the buffer \<open>dst\<close>, a run whose header declares a
  count above \<open>maxSupportedValueCount = 16 * 2^20\<close>, it returns the CountTooLarge error
  and the buffer as it was: nothing of that run is written. This holds for the three
  decoders, whatever the mode bit of the header and whatever follows it. In particular,
  when the encoding of a sequence is followed by such a header, \<open>decodeBytes\<close> and
  \<open>decodeInt32\<close> return the sequence together with the error.
\<close>

theorem count_above_cap_rejected:
  assumes "maxSupportedValueCount < u div 2"
  shows "(i < length src \<and> Uvarint (drop i src) = (u, n) \<and> 0 < n \<longrightarrow>
            decodeBits_loop dst src i = (dst, Some CountTooLarge) \<and>
            decodeBytes_loop dst src i bitWidth = (dst, Some CountTooLarge) \<and>
            decodeInt32_loop dst src spare i bitWidth = Returns dst (Some CountTooLarge)) \<and>
         (u < 2 ^ 64 \<and> bitWidth \<le> 8 \<and> length xs \<le> maxSupportedValueCount \<and>
          (\<forall>x\<in>set xs. unat x < 2 ^ bitWidth) \<longrightarrow>
            decodeBytes [] (fst (encodeBytes [] xs bitWidth) @ PutUvarint u @ rest) bitWidth =
              (xs, Some CountTooLarge)) \<and>
         (u < 2 ^ 64 \<and> bitWidth \<le> 32 \<and> length ys \<le> maxSupportedValueCount \<and>
          (\<forall>y\<in>set ys. unat y < 2 ^ bitWidth) \<longrightarrow>
            decodeInt32 [] (fst (encodeInt32 [] ys bitWidth) @ PutUvarint u @ rest) spare bitWidth =
              Returns (Int32ToBytes ys) (Some CountTooLarge))"
proof -
  have a: "decodeBytes [] (fst (encodeBytes [] xs bitWidth) @ PutUvarint u @ rest) bitWidth =
              (xs, Some CountTooLarge)"
    if "u < 2 ^ 64" and "bitWidth \<le> 8" and "length xs \<le> maxSupportedValueCount"
      and "\<forall>x\<in>set xs. unat x < 2 ^ bitWidth"
    unfolding decodeBytes_run_after [OF that(2,3,4)]
    by (rule count_above_cap_step(2) [OF header_after [OF that(1)] assms])
  have b: "decodeInt32 [] (fst (encodeInt32 [] ys bitWidth) @ PutUvarint u @ rest) spare bitWidth =
              Returns (Int32ToBytes ys) (Some CountTooLarge)"
    if "u < 2 ^ 64" and "bitWidth \<le> 32" and "length ys \<le> maxSupportedValueCount"
      and "\<forall>y\<in>set ys. unat y < 2 ^ bitWidth"
    unfolding decodeInt32_run_after [OF that(2,3,4)]
    by (rule count_above_cap_step(3) [OF header_after [OF that(1)] assms])
  have s: "decodeBits_loop dst src i = (dst, Some CountTooLarge) \<and>
            decodeBytes_loop dst src i bitWidth = (dst, Some CountTooLarge) \<and>
            decodeInt32_loop dst src spare i bitWidth = Returns dst (Some CountTooLarge)"
    if "i < length src \<and> Uvarint (drop i src) = (u, n) \<and> 0 < n"
  proof -
    from that have h: "i < length src" "Uvarint (drop i src) = (u, n)" "0 < n"
      by simp_all
    show ?thesis
      using count_above_cap_step(1) [OF h assms] count_above_cap_step(2) [OF h assms]
        count_above_cap_step(3) [OF h assms]
      by simp
  qed
  show ?thesis
  proof (intro conjI)
    show "i < length src \<and> Uvarint (drop i src) = (u, n) \<and> 0 < n \<longrightarrow>
            decodeBits_loop dst src i = (dst, Some CountTooLarge) \<and>
            decodeBytes_loop dst src i bitWidth = (dst, Some CountTooLarge) \<and>
            decodeInt32_loop dst src spare i bitWidth = Returns dst (Some CountTooLarge)"
      using s by (rule impI)
    show "u < 2 ^ 64 \<and> bitWidth \<le> 8 \<and> length xs \<le> maxSupportedValueCount \<and>
          (\<forall>x\<in>set xs. unat x < 2 ^ bitWidth) \<longrightarrow>
            decodeBytes [] (fst (encodeBytes [] xs bitWidth) @ PutUvarint u @ rest) bitWidth =
              (xs, Some CountTooLarge)"
      by (intro impI, elim conjE, rule a)
    show "u < 2 ^ 64 \<and> bitWidth \<le> 32 \<and> length ys \<le> maxSupportedValueCount \<and>
          (\<forall>y\<in>set ys. unat y < 2 ^ bitWidth) \<longrightarrow>
            decodeInt32 [] (fst (encodeInt32 [] ys bitWidth) @ PutUvarint u @ rest) spare bitWidth =
              Returns (Int32ToBytes ys) (Some CountTooLarge)"
      by (intro impI, elim conjE, rule b)
  qed
qed

text \<open>The header \<open>80 80 80 11\<close> declares \<open>17 * 2^20\<close> values.\<close>

theorem count_above_cap_rejected_witness:
  "decodeBits [] [0x80, 0x80, 0x80, 0x11] = ([], Some CountTooLarge) \<and>
   decodeBytes [] [0x80, 0x80, 0x80, 0x11] 8 = ([], Some CountTooLarge) \<and>
   decodeInt32 [] [0x80, 0x80, 0x80, 0x11] [] 8 = Returns [] (Some CountTooLarge) \<and>
   decodeBytes [] (fst (encodeBytes [] [1, 1, 0] 1) @ PutUvarint 35651584 @ [9]) 1 =
     ([1, 1, 0], Some CountTooLarge) \<and>
   decodeInt32 [] (fst (encodeInt32 [] [1, 1, 0] 1) @ PutUvarint 35651584 @ [9]) [] 1 =
     Returns (Int32ToBytes [1, 1, 0]) (Some CountTooLarge)"
proof -
  have c: "maxSupportedValueCount < 35651584 div 2"
    by (simp add: maxSupportedValueCount_def)
  have u: "(35651584 :: nat) < 2 ^ 64" by simp
  have l: "length [1, 1, 0 :: byte] \<le> maxSupportedValueCount"
    "length [1, 1, 0 :: int32] \<le> maxSupportedValueCount"
    by (simp_all add: maxSupportedValueCount_def)
  have v: "\<forall>x\<in>set [1, 1, 0 :: byte]. unat x < 2 ^ 1" "\<forall>y\<in>set [1, 1, 0 :: int32]. unat y < 2 ^ 1"
    by simp_all
  have h: "0 < length [0x80, 0x80, 0x80, 0x11 :: byte]"
    "Uvarint (drop 0 [0x80, 0x80, 0x80, 0x11]) = (35651584, 4)" "(0 :: int) < 4"
    by (simp_all add: Uvarint_count_17M)
  note t = count_above_cap_rejected [OF c]
  note a = t [of 0 "[0x80, 0x80, 0x80, 0x11]" 4 "[]" 8 "[]", THEN conjunct1, rule_format,
      OF conjI [OF h(1) conjI [OF h(2,3)]]]
  note b = t [of 0 "[]" 0 "[]" 1 "[]" "[1, 1, 0]" "[9]" "[1, 1, 0]", THEN conjunct2]
  have b1: "decodeBytes [] (fst (encodeBytes [] [1, 1, 0] 1) @ PutUvarint 35651584 @ [9]) 1 =
     ([1, 1, 0], Some CountTooLarge)"
    using b [THEN conjunct1] u l(1) v(1) by simp
  have b2: "decodeInt32 [] (fst (encodeInt32 [] [1, 1, 0] 1) @ PutUvarint 35651584 @ [9]) [] 1 =
     Returns (Int32ToBytes [1, 1, 0]) (Some CountTooLarge)"
    using b [THEN conjunct2] u l(2) v(2) by simp
  show ?thesis
    using a b1 b2 by (simp add: decodeBits_def decodeBytes_def decodeInt32_def)
qed

subsection \<open>The probe of a row group (C7)\<close>

text \<open>
  Claim C7, as stated, fails: \<open>NotFound\<close> is returned before the pages are exhausted. The
  row group has the pages \<open>[id1, id3]\<close> and \<open>[id4, id5]\<close>; the probe for \<open>id2\<close> scans the
  first page, whose bounds admit the id, and returns \<open>NotFound\<close> with the second page
  still unread.
\<close>

theorem NotFound_before_pages_exhausted:
  "scanPages 0 [(Some (page_of id1 id3 [id1, id3]), None),
                (Some (page_of id4 id5 [id4, id5]), None)] id2 =
     (NotFound, [(Some (page_of id4 id5 [id4, id5]), None)])"
  by (simp add: page_of_def ids_order)

text \<open>
  Claim C7, amended. Within a probe the pages are visited in order. A page whose bounds
  lie below the id advances the running row counter by its row count and the scan goes on
  with the next page. The first page whose bounds admit the id is scanned linearly (also
  when \<open>min = max = id\<close>) and ends the probe: with the global row number of the first
  matching value in scan order when the page holds the id (its reader reporting no error
  before its last read), with \<open>NotFound\<close> when it does not, the later pages unread. A page
  whose lower bound is above the id ends the probe with \<open>SearchPrevious\<close>, and \<open>NotFound\<close>
  is returned when no page is left.
\<close>

theorem page_scan:
  assumes "err \<noteq> Some EOF" and "bounds p = Some (lo, hi)"
  shows "(\<not> t < lo \<and> hi < t \<longrightarrow>
            scanPages r ((Some p, err) # rest) t = scanPages (r + int (num_rows p)) rest t) \<and>
         (lo \<le> t \<and> t \<le> hi \<and> reads_clean (reads p) \<and> y < length (page_values p) \<and>
          page_values p ! y = t \<and> (\<forall>k<y. page_values p ! k \<noteq> t) \<longrightarrow>
            scanPages r ((Some p, err) # rest) t = (r + int y, rest)) \<and>
         (lo \<le> t \<and> t \<le> hi \<and> t \<notin> set (page_values p) \<longrightarrow>
            scanPages r ((Some p, err) # rest) t = (NotFound, rest)) \<and>
         (t < lo \<longrightarrow> scanPages r ((Some p, err) # rest) t = (SearchPrevious, rest)) \<and>
         scanPages r [] t = (NotFound, [])"
  using assms
  by (auto simp: scanValues_clean scanValues_absent page_values_def match_from_first [where n = 0, simplified])

theorem page_scan_witness:
  "scanPages 5 [(Some (page_of id1 id3 [id1, id2, id3]), None)] id4 = (NotFound, []) \<and>
   scanPages 5 [(Some (page_of id1 id3 [id1, id2, id3]), None)] id3 = (7, []) \<and>
   scanPages 5 [(Some (page_of id1 id3 [id1, id3]), None)] id2 = (NotFound, []) \<and>
   scanPages 5 [(Some (page_of id3 id3 [id3]), None)] id2 = (SearchPrevious, [])"
  using page_scan [of None "page_of id1 id3 [id1, id2, id3]" id1 id3 id4 5 "[]" 0]
    page_scan [of None "page_of id1 id3 [id1, id2, id3]" id1 id3 id3 5 "[]" 2]
    page_scan [of None "page_of id1 id3 [id1, id3]" id1 id3 id2 5 "[]" 0]
    page_scan [of None "page_of id3 id3 [id3]" id3 id3 id2 5 "[]" 0]
  by (simp add: page_of_def page_values_def reads_clean_def ids_order
      less_Suc_eq numeral_2_eq_2)

subsection \<open>The empty boolean page (C8)\<close>

text \<open>
  Claim C8, as stated, fails in its first part: the encoder writes a zero-count header for
  an empty input, so an empty boolean stream is encoded in five bytes, not in four.
\<close>

theorem EncodeBoolean_empty_is_five_bytes:
  "EncodeBoolean [] = [1, 0, 0, 0, 0] \<and> EncodeBoolean [] \<noteq> [0, 0, 0, 0]"
  by (simp add: EncodeBoolean_empty)

text \<open>
  Claim C8, amended. Encoding an empty boolean stream produces the five bytes
  \<open>01 00 00 00 00\<close>: the length prefix 1 and a body that is one zero-count run-length
  header; decoding them yields the empty stream, and so does decoding the four zero bytes.
  For every input the output is a 4-byte prefix followed by the encoded body, and the
  prefix is the little-endian length of the body modulo \<open>2^32\<close>.
\<close>

theorem EncodeBoolean_framing:
  "EncodeBoolean [] = [1, 0, 0, 0, 0] \<and>
   DecodeBoolean (EncodeBoolean []) = ([], None) \<and>
   DecodeBoolean [0, 0, 0, 0] = ([], None) \<and>
   EncodeBoolean src = take 4 (EncodeBoolean src) @ encodeBits [] src \<and>
   length (take 4 (EncodeBoolean src)) = 4 \<and>
   Uint32 (EncodeBoolean src) = length (encodeBits [] src) mod 2 ^ 32"
proof -
  let ?body = "encodeBits [] src"
  have e: "EncodeBoolean src =
      PutUint32 ([0, 0, 0, 0] @ ?body) (length ?body mod 2 ^ 32)"
  proof -
    have l: "length ([0, 0, 0, 0] @ ?body) = length ?body + 4" by simp
    show ?thesis
      by (simp only: EncodeBoolean_def Let_def encodeBits_append [of "[0, 0, 0, 0]" src] l
          uint32_sub4)
  qed
  have d: "DecodeBoolean [1, 0, 0, 0, 0] = ([], None)"
    by (simp add: DecodeBoolean_def Uint32_def Let_def decodeBits_def
        decodeBits_loop.simps [of "[]" "[0]" 0] decodeBits_loop.simps [of "[]" "[0]" "Suc 0"]
        Uvarint_single_0 maxSupportedValueCount_def ByteCount_def)
  have u: "Uint32 (EncodeBoolean src) = length ?body mod 2 ^ 32"
    unfolding e by (rule Uint32_PutUint32) simp
  show ?thesis
    using u by (simp add: EncodeBoolean_empty d) (simp add: e PutUint32_def DecodeBoolean_def)
qed

subsection \<open>Constant inputs (C9)\<close>

text \<open>
  Claim C9, as stated, fails: a constant input whose length is not a multiple of 8 is
  encoded as two run-length runs, one for the full groups of 8 and one for the tail. Nine
  values 1 at bit width 1 give the runs \<open>10 01\<close> (count 8) and \<open>02 01\<close> (count 1).
\<close>

theorem constant_input_of_nine_has_two_runs:
  "encodeBytes [] (replicate 9 1) 1 = ([0x10, 1, 0x02, 1], None)"
  by (simp add: encodeBytes_constant appendRunLengthBytes_def uint64_def PutUvarint_small)

text \<open>
  Claim C9, amended. For a constant input of length at least 8 whose values fit the bit
  width, the output of the encoder is exactly one run-length run when the length is a
  multiple of 8 or the bit width is 0, and exactly two run-length runs otherwise: one of
  \<open>8 * (n div 8)\<close> values and one of \<open>n mod 8\<close> values. The output has at most
  \<open>ceil(bitWidth / 8) + 10\<close> bytes when it is one run, and also when it is two runs of
  fewer than \<open>2^32\<close> values.
\<close>

theorem constant_input_runs:
  assumes "8 \<le> n"
  shows "(1 \<le> w \<and> w \<le> 8 \<longrightarrow>
            encodeBytes [] (replicate n v) w =
              (if n mod 8 = 0 then appendRunLengthBytes [] n v
               else appendRunLengthBytes (appendRunLengthBytes [] (8 * (n div 8)) v) (n mod 8) v,
               None)) \<and>
         (1 \<le> w \<and> w \<le> 32 \<longrightarrow>
            encodeInt32 [] (replicate n x) w =
              (if n mod 8 = 0 then appendRunLengthInt32 [] n x w
               else appendRunLengthInt32 (appendRunLengthInt32 [] (8 * (n div 8)) x w) (n mod 8) x w,
               None)) \<and>
         encodeBytes [] (replicate n 0) 0 = (appendUvarint [] (uint64 (2 * uint64 n)), None) \<and>
         encodeInt32 [] (replicate n 0) 0 = (appendUvarint [] (uint64 (2 * uint64 n)), None) \<and>
         (1 \<le> w \<and> w \<le> 8 \<and> (n mod 8 = 0 \<or> n < 2 ^ 32) \<longrightarrow>
            length (fst (encodeBytes [] (replicate n v) w)) \<le> ByteCount w + 10) \<and>
         (1 \<le> w \<and> w \<le> 32 \<and> (n mod 8 = 0 \<or> n < 2 ^ 32) \<longrightarrow>
            length (fst (encodeInt32 [] (replicate n x) w)) \<le> ByteCount w + 10) \<and>
         length (fst (encodeBytes [] (replicate n 0) 0)) \<le> ByteCount 0 + 10 \<and>
         length (fst (encodeInt32 [] (replicate n 0) 0)) \<le> ByteCount 0 + 10"
proof -
  have z1: "encodeBytes [] (replicate n 0) 0 = (appendUvarint [] (uint64 (2 * uint64 n)), None)"
    by (simp add: encodeBytes_def isZero_replicate)
  have z2: "encodeInt32 [] (replicate n 0) 0 = (appendUvarint [] (uint64 (2 * uint64 n)), None)"
    by (simp add: encodeInt32_def isZero_Int32_zeros)
  have h: "length (PutUvarint (uint64 (2 * uint64 n))) \<le> 10"
    by (rule length_PutUvarint_uint64)
  have h1: "n < 2 ^ 32 \<Longrightarrow> length (PutUvarint (uint64 (2 * uint64 (8 * (n div 8))))) \<le> 5"
  proof -
    assume "n < 2 ^ 32"
    moreover have "8 * (n div 8) \<le> n" by simp
    ultimately have "8 * (n div 8) < 2 ^ 32" by (rule le_less_trans [rotated])
    then show ?thesis by (rule header_small)
  qed
  have h2: "length (PutUvarint (uint64 (2 * uint64 (n mod 8)))) \<le> 1"
    by (rule header_tiny) simp
  have s1: "1 \<le> w \<and> w \<le> 8 \<and> (n mod 8 = 0 \<or> n < 2 ^ 32) \<longrightarrow>
            length (fst (encodeBytes [] (replicate n v) w)) \<le> ByteCount w + 10"
    using h h1 h2 assms
    by (auto simp add: encodeBytes_constant appendRunLengthBytes_def ByteCount_1)
  have s2: "1 \<le> w \<and> w \<le> 32 \<and> (n mod 8 = 0 \<or> n < 2 ^ 32) \<longrightarrow>
            length (fst (encodeInt32 [] (replicate n x) w)) \<le> ByteCount w + 10"
    using h h1 h2 assms ByteCount_le_4 [of w]
    by (auto simp add: encodeInt32_constant appendRunLengthInt32_def int32_bytes_def min_def)
  show ?thesis
    using assms h s1 s2
    by (simp add: encodeBytes_constant encodeInt32_constant z1 z2 appendUvarint_def)
qed

theorem constant_input_runs_witness:
  "encodeBytes [] (replicate 16 7) 3 = ([0x20, 7], None) \<and>
   encodeBytes [] (replicate 9 7) 3 = ([0x10, 7, 0x02, 7], None) \<and>
   encodeInt32 [] (replicate 16 7) 9 = ([0x20, 7, 0], None) \<and>
   encodeInt32 [] (replicate 9 7) 9 = ([0x10, 7, 0, 0x02, 7, 0], None) \<and>
   length (fst (encodeBytes [] (replicate 9 7) 3)) \<le> ByteCount 3 + 10 \<and>
   length (fst (encodeInt32 [] (replicate 9 7) 9)) \<le> ByteCount 9 + 10"
  using constant_input_runs [of 16 3 7 7] constant_input_runs [of 9 3 7 7]
    constant_input_runs [of 16 9 7 7] constant_input_runs [of 9 9 7 7]
  by (simp add: appendRunLengthBytes_def appendRunLengthInt32_def uint64_def PutUvarint_small
      ByteCount_def int32_bytes_def)

subsection \<open>The framed boolean page (C10)\<close>

text \<open>
  Claim C10. \<open>DecodeBoolean\<close> returns an empty output and no error for every input of
  exactly 4 bytes, whatever they hold; it returns an error, without decoding, for every
  input shorter than 4 bytes and for every longer input whose length prefix exceeds the
  number of bytes that follow it.
\<close>

theorem DecodeBoolean_framing:
  "(length src = 4 \<longrightarrow> DecodeBoolean src = ([], None)) \<and>
   (length src < 4 \<longrightarrow> DecodeBoolean src = ([], Some ShorterThan4Bytes)) \<and>
   (4 < length src \<and> length src - 4 < Uint32 src \<longrightarrow>
      DecodeBoolean src = ([], Some ShorterThanLengthPrefix))"
  by (simp add: DecodeBoolean_def Let_def)

theorem DecodeBoolean_framing_witness:
  "DecodeBoolean [7, 0, 0, 0] = ([], None) \<and>
   DecodeBoolean [7, 0, 0] = ([], Some ShorterThan4Bytes) \<and>
   DecodeBoolean [7, 0, 0, 0, 1] = ([], Some ShorterThanLengthPrefix)"
  using DecodeBoolean_framing [of "[7, 0, 0, 0]"] DecodeBoolean_framing [of "[7, 0, 0]"]
    DecodeBoolean_framing [of "[7, 0, 0, 0, 1]"]
  by (simp add: Uint32_def)

end
